theory Spec2Isabelle
  imports Main
begin

section \<open>Field arithmetic of the circuit\<close>

text \<open>
  A circom signal holds an element of the prime field \<open>F\<^sub>p\<close>, where \<open>p\<close> is the
  prime the compiler is run with.  The repository never names the prime (the build
  script takes the compiler's default), so \<open>p\<close> is a parameter of every definition.
  A field element is an integer in \<open>{0..<p}\<close>; every operation reduces modulo \<open>p\<close>.
\<close>

definition felt :: "int \<Rightarrow> int \<Rightarrow> bool" where
  "felt p x \<longleftrightarrow> 0 \<le> x \<and> x < p"

text \<open>Primality by trial division: what makes \<open>{0..<p}\<close> a field.\<close>

definition prime_field :: "int \<Rightarrow> bool" where
  "prime_field p \<longleftrightarrow> 1 < p \<and> (\<forall>d\<in>{2..<p}. \<not> d dvd p)"

definition fadd :: "int \<Rightarrow> int \<Rightarrow> int \<Rightarrow> int" where
  "fadd p a b = (a + b) mod p"

definition fsub :: "int \<Rightarrow> int \<Rightarrow> int \<Rightarrow> int" where
  "fsub p a b = (a - b) mod p"

definition fmul :: "int \<Rightarrow> int \<Rightarrow> int \<Rightarrow> int" where
  "fmul p a b = (a * b) mod p"

definition fneg :: "int \<Rightarrow> int \<Rightarrow> int" where
  "fneg p a = (- a) mod p"

text \<open>
  Division \<open>a / b\<close> of circom is \<open>a\<close> times the inverse of \<open>b\<close> modulo \<open>p\<close>.  The
  inverse is computed by the extended Euclidean algorithm: \<open>egcd a b\<close> returns
  \<open>(g, x, y)\<close> with \<open>a * x + b * y = g\<close>.
\<close>

function egcd :: "int \<Rightarrow> int \<Rightarrow> int \<times> int \<times> int" where
  "egcd a b =
     (if b = 0 then (a, 1, 0)
      else (case egcd b (a mod b) of (g, x, y) \<Rightarrow> (g, y, x - (a div b) * y)))"
  by pat_completeness auto
termination
  by (relation "measure (\<lambda>(a, b). nat \<bar>b\<bar>)") (auto simp: abs_mod_less)

declare egcd.simps [simp del]

definition finv :: "int \<Rightarrow> int \<Rightarrow> int" where
  "finv p a = (case egcd (a mod p) p of (g, x, y) \<Rightarrow> x mod p)"

definition fdiv :: "int \<Rightarrow> int \<Rightarrow> int \<Rightarrow> int" where
  "fdiv p a b = fmul p a (finv p b)"

section \<open>The circuit \<open>hash_preimage.circom\<close>\<close>

datatype error = ShapeMismatch | UnsatisfiableWitness

subsection \<open>The equality test\<close>

text \<open>
  Modelled from the spec: the templates \<open>IsZero\<close> and \<open>IsEqual\<close> that the circuit
  includes from circomlib's \<open>comparators.circom\<close> are not among the repository's
  sources.  The spec (sections 4.1 and 9) describes them as the multiplicative-inverse
  hint: the hint is the inverse of the difference when the difference is not zero and
  \<open>0\<close> otherwise, the output is \<open>1 - difference * hint\<close>, and a complementary
  constraint \<open>difference * output = 0\<close> forces the output.  In circomlib:
  \<^verbatim>\<open>
  inv <-- in!=0 ? 1/in : 0;
  out <== -in*inv +1;
  in*out === 0;
  \<close>
  and \<open>IsEqual\<close> feeds \<open>in[1] - in[0]\<close> to \<open>IsZero\<close>.

  \<open>IsZero p x\<close> is the witness computation: it returns the hint and the output, or
  fails where the generated code's assertion of \<open>in*out === 0\<close> fails.
  \<open>IsZero_constraints\<close> are the two constraints, on any values of the hint and the
  output.
\<close>

definition IsZero :: "int \<Rightarrow> int \<Rightarrow> error + int \<times> int" where
  "IsZero p x =
     (let isz_inv = (if x \<noteq> 0 then fdiv p 1 x else 0);
          out = fadd p (fmul p (fneg p x) isz_inv) 1
      in if fmul p x out = 0 then Inr (isz_inv, out) else Inl UnsatisfiableWitness)"

definition IsZero_constraints :: "int \<Rightarrow> int \<Rightarrow> int \<Rightarrow> int \<Rightarrow> bool" where
  "IsZero_constraints p x isz_inv out \<longleftrightarrow>
     out = fadd p (fmul p (fneg p x) isz_inv) 1 \<and> fmul p x out = 0"

definition IsEqual :: "int \<Rightarrow> int \<Rightarrow> int \<Rightarrow> error + int \<times> int" where
  "IsEqual p in0 in1 = IsZero p (fsub p in1 in0)"

definition IsEqual_constraints :: "int \<Rightarrow> int \<Rightarrow> int \<Rightarrow> int \<Rightarrow> int \<Rightarrow> bool" where
  "IsEqual_constraints p in0 in1 isz_inv out \<longleftrightarrow>
     IsZero_constraints p (fsub p in1 in0) isz_inv out"

subsection \<open>Template \<open>HashListCheckInternal(n)\<close>\<close>

text \<open>
  The signals of one instance.  Signals that only copy another signal (the inputs and
  the output of each \<open>eq[i]\<close>, the input and output of the hash component) are
  identified with it; \<open>c_eq_inv\<close> holds the hint \<open>eq[i].isz.inv\<close> of each
  comparator.  The hash component \<open>Poseidon(1)\<close> is a parameter \<open>H\<close>: a function from
  its input to its output.
\<close>

record witness =
  c_r :: int
  c_j :: int
  c_hashes :: "int list"
  c_hr :: int
  c_eq_inv :: "int list"
  c_sel :: "int list"
  c_sumSel :: "int list"
  c_selectedHash :: "int list"
  c_ok :: int

text \<open>
  The selector loop: for \<open>i = 0, \<dots>, n - 1\<close>, the comparator \<open>eq[i]\<close> gets \<open>j\<close> and
  the constant \<open>i\<close>, and \<open>sel[i]\<close> is its output.  The result lists the pairs
  \<open>(eq[i].isz.inv, sel[i])\<close>.
\<close>

fun sel_loop :: "int \<Rightarrow> int \<Rightarrow> nat list \<Rightarrow> error + (int \<times> int) list" where
  "sel_loop p j [] = Inr []"
| "sel_loop p j (i # is) =
     (case IsEqual p j (int i) of
        Inl e \<Rightarrow> Inl e
      | Inr eq \<Rightarrow>
          (case sel_loop p j is of
             Inl e \<Rightarrow> Inl e
           | Inr eqs \<Rightarrow> Inr (eq # eqs)))"

text \<open>
  \<open>sumSel[0] <== 0; sumSel[i+1] <== sumSel[i] + sel[i]\<close>: started at \<open>s = 0\<close>, the
  loop returns the list \<open>sumSel[0], \<dots>, sumSel[n]\<close>.
\<close>

fun sumSel_loop :: "int \<Rightarrow> int \<Rightarrow> int list \<Rightarrow> int list" where
  "sumSel_loop p s [] = [s]"
| "sumSel_loop p s (x # xs) = s # sumSel_loop p (fadd p s x) xs"

text \<open>
  \<open>selectedHash[0] <== 0; selectedHash[i+1] <== selectedHash[i] + sel[i] * hashes[i]\<close>.
\<close>

fun selectedHash_loop :: "int \<Rightarrow> int \<Rightarrow> int list \<Rightarrow> int list \<Rightarrow> int list" where
  "selectedHash_loop p s (x # xs) (h # hs) =
     s # selectedHash_loop p (fadd p s (fmul p x h)) xs hs"
| "selectedHash_loop p s xs hs = [s]"

text \<open>
  Witness computation of the template, for a list \<open>hashes\<close> of \<open>n\<close> elements: each
  \<open>===\<close> (and the assertion inside each comparator) is checked where the source has
  it, and a failed check ends the computation.
\<close>

definition HashListCheckInternal ::
  "int \<Rightarrow> (int \<Rightarrow> int) \<Rightarrow> nat \<Rightarrow> int \<Rightarrow> int \<Rightarrow> int list \<Rightarrow> error + witness" where
  "HashListCheckInternal p H n r j hashes =
     (let hr = H r in
      case sel_loop p j [0..<n] of
        Inl e \<Rightarrow> Inl e
      | Inr eqs \<Rightarrow>
          (let sel = map snd eqs;
               sumSel = sumSel_loop p 0 sel in
           if sumSel ! n \<noteq> 1 then Inl UnsatisfiableWitness
           else
             (let selectedHash = selectedHash_loop p 0 sel hashes in
              if hr \<noteq> selectedHash ! n then Inl UnsatisfiableWitness
              else Inr \<lparr>c_r = r, c_j = j, c_hashes = hashes, c_hr = hr,
                         c_eq_inv = map fst eqs, c_sel = sel, c_sumSel = sumSel,
                         c_selectedHash = selectedHash, c_ok = 1\<rparr>)))"

text \<open>
  The constraints of the template, as a predicate on an arbitrary assignment of its
  signals: one conjunct for each \<open><==\<close> and \<open>===\<close> of the source, and the sizes of
  the signal arrays.
\<close>

definition HashListCheckInternal_constraints ::
  "int \<Rightarrow> (int \<Rightarrow> int) \<Rightarrow> nat \<Rightarrow> witness \<Rightarrow> bool" where
  "HashListCheckInternal_constraints p H n w \<longleftrightarrow>
     length (c_hashes w) = n \<and> length (c_eq_inv w) = n \<and> length (c_sel w) = n \<and>
     length (c_sumSel w) = n + 1 \<and> length (c_selectedHash w) = n + 1 \<and>
     c_hr w = H (c_r w) \<and>
     (\<forall>i\<in>{0..<n}. IsEqual_constraints p (c_j w) (int i) (c_eq_inv w ! i) (c_sel w ! i)) \<and>
     c_sumSel w ! 0 = 0 \<and>
     (\<forall>i\<in>{0..<n}. c_sumSel w ! (i + 1) = fadd p (c_sumSel w ! i) (c_sel w ! i)) \<and>
     c_sumSel w ! n = 1 \<and>
     c_selectedHash w ! 0 = 0 \<and>
     (\<forall>i\<in>{0..<n}. c_selectedHash w ! (i + 1) =
        fadd p (c_selectedHash w ! i) (fmul p (c_sel w ! i) (c_hashes w ! i))) \<and>
     c_hr w = c_selectedHash w ! n \<and>
     c_ok w = 1"

subsection \<open>Template \<open>Main(n)\<close> and the main component\<close>

record main_witness =
  main_hashes :: "int list"
  main_r :: int
  main_j :: int
  main_c :: witness
  main_ok :: int

definition Main ::
  "int \<Rightarrow> (int \<Rightarrow> int) \<Rightarrow> nat \<Rightarrow> int list \<Rightarrow> int \<Rightarrow> int \<Rightarrow> error + main_witness" where
  "Main p H n hashes r j =
     (case HashListCheckInternal p H n r j hashes of
        Inl e \<Rightarrow> Inl e
      | Inr c \<Rightarrow> Inr \<lparr>main_hashes = hashes, main_r = r, main_j = j, main_c = c,
                       main_ok = c_ok c\<rparr>)"

definition Main_constraints :: "int \<Rightarrow> (int \<Rightarrow> int) \<Rightarrow> nat \<Rightarrow> main_witness \<Rightarrow> bool" where
  "Main_constraints p H n m \<longleftrightarrow>
     length (main_hashes m) = n \<and>
     c_hashes (main_c m) = main_hashes m \<and>
     c_r (main_c m) = main_r m \<and>
     c_j (main_c m) = main_j m \<and>
     main_ok m = c_ok (main_c m) \<and>
     HashListCheckInternal_constraints p H n (main_c m)"

text \<open>\<open>component main = Main(10)\<close>\<close>

definition component_main ::
  "int \<Rightarrow> (int \<Rightarrow> int) \<Rightarrow> int list \<Rightarrow> int \<Rightarrow> int \<Rightarrow> error + main_witness" where
  "component_main p H hashes r j = Main p H 10 hashes r j"

definition component_main_constraints :: "int \<Rightarrow> (int \<Rightarrow> int) \<Rightarrow> main_witness \<Rightarrow> bool" where
  "component_main_constraints p H m \<longleftrightarrow> Main_constraints p H 10 m"

text \<open>
  Modelled from the spec: the generated witness calculator that loads the inputs into
  the main component is a build product and not among the sources.  The spec (4.4, 7)
  has it fail with \<open>ShapeMismatch\<close> before any constraint is evaluated when the list
  does not have exactly \<open>n\<close> elements; the signal declaration \<open>hashes[n]\<close> of the
  source fixes that size.
\<close>

definition synthesize_witness ::
  "int \<Rightarrow> (int \<Rightarrow> int) \<Rightarrow> int \<Rightarrow> int \<Rightarrow> int list \<Rightarrow> error + main_witness" where
  "synthesize_witness p H secret index list =
     (if length list \<noteq> 10 then Inl ShapeMismatch
      else component_main p H list secret index)"

definition public_output :: "main_witness \<Rightarrow> int" where
  "public_output m = main_ok m"

text \<open>
  The selector as the spec states it (4.1): \<open>sel[i] = 1\<close> if the index equals \<open>i\<close>,
  else \<open>0\<close>.
\<close>

definition sel_spec :: "int \<Rightarrow> nat \<Rightarrow> int" where
  "sel_spec index i = (if index = int i then 1 else 0)"

text \<open>All signals of a witness are field elements.\<close>

definition wf_witness :: "int \<Rightarrow> main_witness \<Rightarrow> bool" where
  "wf_witness p m \<longleftrightarrow>
     felt p (main_ok m) \<and> felt p (c_ok (main_c m)) \<and> felt p (c_hr (main_c m)) \<and>
     list_all (felt p) (c_eq_inv (main_c m)) \<and> list_all (felt p) (c_sel (main_c m)) \<and>
     list_all (felt p) (c_sumSel (main_c m)) \<and>
     list_all (felt p) (c_selectedHash (main_c m))"

text \<open>The one-hot vector of length \<open>n\<close> with its \<open>1\<close> at position \<open>k\<close>.\<close>

definition one_hot :: "nat \<Rightarrow> nat \<Rightarrow> int list" where
  "one_hot n k = map (\<lambda>i. if i = k then 1 else 0) [0..<n]"

subsection \<open>One run of the witness computation\<close>

text \<open>
  The witness computation once more, as a relation between the inputs and the result of
  one run, with one rule for each way the run of a template can go.  A premise stands
  for a statement of the template: an assignment gives the signal the value of its
  expression, and an assertion that fails ends the run with the error.  For
  \<open>IsZero\<close> and \<open>IsEqual\<close> the statements are those of circomlib quoted above.
\<close>

inductive IsZero_run :: "int \<Rightarrow> int \<Rightarrow> error + int \<times> int \<Rightarrow> bool"
  for p :: int and x :: int where
  IsZero_done:
    "isz_inv = (if x \<noteq> 0 then fdiv p 1 x else 0) \<Longrightarrow>
     out = fadd p (fmul p (fneg p x) isz_inv) 1 \<Longrightarrow>
     fmul p x out = 0 \<Longrightarrow>
     IsZero_run p x (Inr (isz_inv, out))"
| IsZero_assert:
    "isz_inv = (if x \<noteq> 0 then fdiv p 1 x else 0) \<Longrightarrow>
     out = fadd p (fmul p (fneg p x) isz_inv) 1 \<Longrightarrow>
     fmul p x out \<noteq> 0 \<Longrightarrow>
     IsZero_run p x (Inl UnsatisfiableWitness)"

inductive IsEqual_run :: "int \<Rightarrow> int \<Rightarrow> int \<Rightarrow> error + int \<times> int \<Rightarrow> bool"
  for p :: int and in0 :: int and in1 :: int where
  IsEqual_isz: "IsZero_run p (fsub p in1 in0) res \<Longrightarrow> IsEqual_run p in0 in1 res"

text \<open>
  A loop \<open>for (var i = 0; i < n; i++)\<close> is a relation on its state: the loop variable
  \<open>i\<close> and the signal arrays as far as they are assigned.  The selector loop fills
  \<open>eq[i].isz.inv\<close> and \<open>sel[i]\<close>; the other two loops start from the array holding
  the element \<open>0\<close> alone and assign the element \<open>i + 1\<close> from the element \<open>i\<close>.
\<close>

inductive sel_run ::
  "int \<Rightarrow> int \<Rightarrow> nat \<Rightarrow> nat \<Rightarrow> int list \<times> int list \<Rightarrow> error + int list \<times> int list \<Rightarrow> bool"
  for p :: int and j :: int and n :: nat where
  sel_exit: "\<not> i < n \<Longrightarrow> sel_run p j n i st (Inr st)"
| sel_assert:
    "i < n \<Longrightarrow> IsEqual_run p j (int i) (Inl e) \<Longrightarrow> sel_run p j n i st (Inl e)"
| sel_iter:
    "i < n \<Longrightarrow> IsEqual_run p j (int i) (Inr (isz_inv, out)) \<Longrightarrow>
     sel_run p j n (i + 1) (fst st @ [isz_inv], snd st @ [out]) res \<Longrightarrow>
     sel_run p j n i st res"

inductive sumSel_run :: "int \<Rightarrow> int list \<Rightarrow> nat \<Rightarrow> nat \<Rightarrow> int list \<Rightarrow> int list \<Rightarrow> bool"
  for p :: int and sel :: "int list" and n :: nat where
  sumSel_exit: "\<not> i < n \<Longrightarrow> sumSel_run p sel n i sumSel sumSel"
| sumSel_iter:
    "i < n \<Longrightarrow>
     sumSel_run p sel n (i + 1) (sumSel @ [fadd p (sumSel ! i) (sel ! i)]) res \<Longrightarrow>
     sumSel_run p sel n i sumSel res"

inductive selectedHash_run ::
  "int \<Rightarrow> int list \<Rightarrow> int list \<Rightarrow> nat \<Rightarrow> nat \<Rightarrow> int list \<Rightarrow> int list \<Rightarrow> bool"
  for p :: int and sel :: "int list" and hashes :: "int list" and n :: nat where
  selectedHash_exit: "\<not> i < n \<Longrightarrow> selectedHash_run p sel hashes n i selectedHash selectedHash"
| selectedHash_iter:
    "i < n \<Longrightarrow>
     selectedHash_run p sel hashes n (i + 1)
       (selectedHash @ [fadd p (selectedHash ! i) (fmul p (sel ! i) (hashes ! i))]) res \<Longrightarrow>
     selectedHash_run p sel hashes n i selectedHash res"

text \<open>
  The templates: the three loops in the order of the source, each \<open>===\<close> checked
  after the loop it follows, and the output assigned last.
\<close>

inductive HashListCheckInternal_run ::
  "int \<Rightarrow> (int \<Rightarrow> int) \<Rightarrow> nat \<Rightarrow> int \<Rightarrow> int \<Rightarrow> int list \<Rightarrow> error + witness \<Rightarrow> bool"
  for p :: int and H :: "int \<Rightarrow> int" and n :: nat and r :: int and j :: int
    and hashes :: "int list" where
  run_eq_assert:
    "sel_run p j n 0 ([], []) (Inl e) \<Longrightarrow> HashListCheckInternal_run p H n r j hashes (Inl e)"
| run_sumSel_assert:
    "sel_run p j n 0 ([], []) (Inr (eq_inv, sel)) \<Longrightarrow>
     sumSel_run p sel n 0 [0] sumSel \<Longrightarrow>
     sumSel ! n \<noteq> 1 \<Longrightarrow>
     HashListCheckInternal_run p H n r j hashes (Inl UnsatisfiableWitness)"
| run_hr_assert:
    "hr = H r \<Longrightarrow>
     sel_run p j n 0 ([], []) (Inr (eq_inv, sel)) \<Longrightarrow>
     sumSel_run p sel n 0 [0] sumSel \<Longrightarrow>
     sumSel ! n = 1 \<Longrightarrow>
     selectedHash_run p sel hashes n 0 [0] selectedHash \<Longrightarrow>
     hr \<noteq> selectedHash ! n \<Longrightarrow>
     HashListCheckInternal_run p H n r j hashes (Inl UnsatisfiableWitness)"
| run_done:
    "hr = H r \<Longrightarrow>
     sel_run p j n 0 ([], []) (Inr (eq_inv, sel)) \<Longrightarrow>
     sumSel_run p sel n 0 [0] sumSel \<Longrightarrow>
     sumSel ! n = 1 \<Longrightarrow>
     selectedHash_run p sel hashes n 0 [0] selectedHash \<Longrightarrow>
     hr = selectedHash ! n \<Longrightarrow>
     HashListCheckInternal_run p H n r j hashes
       (Inr \<lparr>c_r = r, c_j = j, c_hashes = hashes, c_hr = hr, c_eq_inv = eq_inv, c_sel = sel,
             c_sumSel = sumSel, c_selectedHash = selectedHash, c_ok = 1\<rparr>)"

inductive Main_run ::
  "int \<Rightarrow> (int \<Rightarrow> int) \<Rightarrow> nat \<Rightarrow> int list \<Rightarrow> int \<Rightarrow> int \<Rightarrow> error + main_witness \<Rightarrow> bool"
  for p :: int and H :: "int \<Rightarrow> int" and n :: nat and hashes :: "int list" and r :: int
    and j :: int where
  Main_assert:
    "HashListCheckInternal_run p H n r j hashes (Inl e) \<Longrightarrow> Main_run p H n hashes r j (Inl e)"
| Main_done:
    "HashListCheckInternal_run p H n r j hashes (Inr c) \<Longrightarrow>
     Main_run p H n hashes r j
       (Inr \<lparr>main_hashes = hashes, main_r = r, main_j = j, main_c = c, main_ok = c_ok c\<rparr>)"

text \<open>
  A run of witness synthesis: the check of the list's length, modelled from the spec as
  in \<open>synthesize_witness\<close>, then the run of the main component \<open>Main(10)\<close>.
\<close>

inductive synthesize_run ::
  "int \<Rightarrow> (int \<Rightarrow> int) \<Rightarrow> int \<Rightarrow> int \<Rightarrow> int list \<Rightarrow> error + main_witness \<Rightarrow> bool"
  for p :: int and H :: "int \<Rightarrow> int" and secret :: int and index :: int and list :: "int list" where
  synthesize_shape:
    "length list \<noteq> 10 \<Longrightarrow> synthesize_run p H secret index list (Inl ShapeMismatch)"
| synthesize_main:
    "length list = 10 \<Longrightarrow> Main_run p H 10 list secret index res \<Longrightarrow>
     synthesize_run p H secret index list res"

section \<open>The input builders\<close>

text \<open>
  The two scripts that write the circuit's \<open>input.json\<close>.  A JavaScript string is a
  sequence of 16-bit code units, kept here as natural numbers; \<open>js\<close> turns an ASCII
  literal into one.
\<close>

type_synonym js_string = "nat list"

definition js :: "string \<Rightarrow> js_string" where
  "js s = map of_char s"

text \<open>
  A script either prints an input (\<open>Inr\<close>) or ends with an error (\<open>Inl\<close>):
  \<open>UsageExit\<close> is the usage message followed by \<open>process.exit(1)\<close>, \<open>Error\<close> a thrown
  \<open>new Error(message)\<close>; \<open>SyntaxError\<close> and \<open>SystemError\<close> are what the library calls
  may throw.
\<close>

datatype js_error =
    UsageExit
  | Error js_string
  | SyntaxError js_string
  | SystemError js_string

text \<open>
  A parsed JSON value; a number is a double, kept as mantissa and binary exponent.
\<close>

datatype json =
    JNull
  | JBool bool
  | JNumber int int
  | JString js_string
  | JArray "json list"
  | JObject "(js_string \<times> json) list"

text \<open>
  The library calls of the scripts are parameters: \<open>fs.readFileSync(path, "utf8")\<close>,
  \<open>JSON.parse\<close>, \<open>String\<close> on a parsed value, \<open>BigInt\<close> on a string, and
  \<open>poseidon.F.toString(poseidon([x]))\<close> of circomlibjs.  Loading the hash with
  \<open>buildPoseidon()\<close> is taken to succeed.
\<close>

record js_env =
  env_readFileSync :: "js_string \<Rightarrow> js_error + js_string"
  env_JSON_parse :: "js_string \<Rightarrow> js_error + json"
  env_String :: "json \<Rightarrow> js_string"
  env_BigInt :: "js_string \<Rightarrow> js_error + int"
  env_poseidon :: "int \<Rightarrow> js_string"

text \<open>The object \<open>{ r, j, hashes }\<close> that a script prints.\<close>

record circuit_input =
  in_r :: js_string
  in_j :: js_string
  in_hashes :: "js_string list"

text \<open>
  \<open>process.argv[k]\<close> is \<open>undefined\<close> beyond the arguments given; \<open>a || d\<close> takes \<open>d\<close>
  when \<open>a\<close> is \<open>undefined\<close> or the empty string.
\<close>

definition argv_at :: "js_string list \<Rightarrow> nat \<Rightarrow> js_string option" where
  "argv_at argv k = (if k < length argv then Some (argv ! k) else None)"

definition truthy :: "js_string option \<Rightarrow> bool" where
  "truthy a = (case a of None \<Rightarrow> False | Some s \<Rightarrow> s \<noteq> [])"

definition or_default :: "js_string option \<Rightarrow> js_string \<Rightarrow> js_string" where
  "or_default a d = (case a of None \<Rightarrow> d | Some s \<Rightarrow> if s = [] then d else s)"

text \<open>
  The code units that \<open>trim\<close> and \<open>parseInt\<close> skip: the white space of ECMAScript
  (tab U+0009, vertical tab U+000B, form feed U+000C, the byte order mark U+FEFF and the
  space separators of Unicode: U+0020, U+00A0, U+1680, U+2000 to U+200A, U+202F, U+205F,
  U+3000) and its line terminators (U+000A, U+000D, U+2028, U+2029).
\<close>

definition is_whitespace :: "nat \<Rightarrow> bool" where
  "is_whitespace c \<longleftrightarrow>
     c \<in> set [0x0009, 0x000A, 0x000B, 0x000C, 0x000D, 0x0020, 0x00A0, 0x1680, 0x2028, 0x2029,
              0x202F, 0x205F, 0x3000, 0xFEFF] \<or>
     (0x2000 \<le> c \<and> c \<le> 0x200A)"

definition js_trim :: "js_string \<Rightarrow> js_string" where
  "js_trim s = rev (dropWhile is_whitespace (rev (dropWhile is_whitespace s)))"

text \<open>
  \<open>parseInt(s, 10)\<close>: leading white space is skipped, then an optional sign
  (\<open>-\<close> is U+002D, \<open>+\<close> is U+002B), then the longest run of the digits \<open>0\<close> to \<open>9\<close>
  (U+0030 to U+0039); \<open>None\<close> is \<open>NaN\<close>, the result when there is no digit.  The value is
  kept exact (JavaScript rounds it to a double beyond \<open>2\<^sup>5\<^sup>3\<close>, which changes no
  comparison with \<open>0\<close> or \<open>9\<close>), and \<open>-0\<close> is \<open>0\<close>.
\<close>

definition is_digit :: "nat \<Rightarrow> bool" where
  "is_digit c \<longleftrightarrow> 0x30 \<le> c \<and> c \<le> 0x39"

definition digit_val :: "nat \<Rightarrow> nat" where
  "digit_val c = c - 0x30"

definition parseInt10 :: "js_string \<Rightarrow> int option" where
  "parseInt10 s =
     (let t = dropWhile is_whitespace s;
          neg = (case t of c # cs \<Rightarrow> c = 0x2D | [] \<Rightarrow> False);
          u = (case t of c # cs \<Rightarrow> if c = 0x2D \<or> c = 0x2B then cs else t | [] \<Rightarrow> []);
          z = takeWhile is_digit u
      in if z = [] then None
         else Some ((if neg then - 1 else 1) * int (foldl (\<lambda>a c. 10 * a + digit_val c) 0 z)))"

text \<open>
  \<open>String(j)\<close> for a number the scripts print: \<open>NaN\<close>, or the decimal digits of an
  integer.
\<close>

function show_nat :: "nat \<Rightarrow> js_string" where
  "show_nat n = (if n < 10 then [0x30 + n] else show_nat (n div 10) @ [0x30 + n mod 10])"
  by pat_completeness auto
termination
  by (relation "measure id") auto

declare show_nat.simps [simp del]

definition js_String_number :: "int option \<Rightarrow> js_string" where
  "js_String_number j =
     (case j of
        None \<Rightarrow> js ''NaN''
      | Some n \<Rightarrow> if n < 0 then 0x2D # show_nat (nat (- n)) else show_nat (nat n))"

text \<open>Comparisons of JavaScript numbers: every comparison with \<open>NaN\<close> is false.\<close>

definition js_lt :: "int option \<Rightarrow> int \<Rightarrow> bool" where
  "js_lt a b = (case a of None \<Rightarrow> False | Some x \<Rightarrow> x < b)"

definition js_gt :: "int option \<Rightarrow> int \<Rightarrow> bool" where
  "js_gt a b = (case a of None \<Rightarrow> False | Some x \<Rightarrow> x > b)"

text \<open>
  \<open>hashes[j] = v\<close> on an array of strings: an index within the array replaces the
  element; an index beyond it extends the array, the holes printing as \<open>null\<close>;
  \<open>NaN\<close> or a negative number names a property and leaves the elements as they are.
\<close>

definition array_set :: "js_string list \<Rightarrow> int option \<Rightarrow> js_string \<Rightarrow> js_string list" where
  "array_set xs j v =
     (case j of
        None \<Rightarrow> xs
      | Some n \<Rightarrow>
          if n < 0 then xs
          else if nat n < length xs then xs[nat n := v]
          else xs @ replicate (nat n - length xs) (js ''null'') @ [v])"

text \<open>The message of \<open>get_input.js\<close>; its dash is U+2013.\<close>

definition j_range_message :: js_string where
  "j_range_message = js ''j must be 0'' @ [0x2013] @ js ''9''"

subsection \<open>\<open>get_input.js\<close>\<close>

definition get_input :: "js_env \<Rightarrow> js_string list \<Rightarrow> js_error + circuit_input" where
  "get_input env argv =
     (let r = or_default (argv_at argv 2) (js ''12345'');
          j = parseInt10 (or_default (argv_at argv 3) (js ''0''))
      in if js_lt j 0 \<or> js_gt j 9 then Inl (Error j_range_message)
         else
           (case env_BigInt env r of
              Inl e \<Rightarrow> Inl e
            | Inr b \<Rightarrow>
                (let hashStr = env_poseidon env b;
                     hashes = array_set (replicate 10 (js ''0'')) j hashStr
                 in Inr \<lparr>in_r = r, in_j = js_String_number j, in_hashes = hashes\<rparr>)))"

subsection \<open>\<open>get_input_with_others.js\<close>\<close>

fun Array_isArray :: "json \<Rightarrow> bool" where
  "Array_isArray (JArray xs) = True"
| "Array_isArray v = False"

fun array_elements :: "json \<Rightarrow> json list" where
  "array_elements (JArray xs) = xs"
| "array_elements v = []"

definition shape_message :: js_string where
  "shape_message = js ''others file must be a JSON array of exactly 9 hashes''"

text \<open>
  \<open>process.argv[3] || path.join(__dirname, "other_hashs.json")\<close>, for a directory name
  without a trailing separator.
\<close>

definition others_path :: "js_string \<Rightarrow> js_string list \<Rightarrow> js_string" where
  "others_path dirname argv =
     or_default (argv_at argv 3) (dirname @ js ''/other_hashs.json'')"

definition get_input_with_others ::
  "js_env \<Rightarrow> js_string \<Rightarrow> js_string list \<Rightarrow> js_error + circuit_input" where
  "get_input_with_others env dirname argv =
     (if \<not> truthy (argv_at argv 2) then Inl UsageExit
      else
        (let secret = the (argv_at argv 2);
             othersPath = others_path dirname argv
         in case env_readFileSync env othersPath of
              Inl e \<Rightarrow> Inl e
            | Inr raw \<Rightarrow>
                if raw = [] \<or> js_trim raw = []
                then Inl (Error (js ''Empty or missing file: '' @ othersPath))
                else
                  (case env_JSON_parse env raw of
                     Inl e \<Rightarrow> Inl e
                   | Inr others \<Rightarrow>
                       if \<not> Array_isArray others \<or> length (array_elements others) \<noteq> 9
                       then Inl (Error shape_message)
                       else
                         (case env_BigInt env secret of
                            Inl e \<Rightarrow> Inl e
                          | Inr b \<Rightarrow>
                              (let hashStr = env_poseidon env b;
                                   hashes = map (env_String env) (array_elements others) @ [hashStr];
                                   j = 9
                               in Inr \<lparr>in_r = secret, in_j = js_String_number (Some j),
                                        in_hashes = hashes\<rparr>)))))"

section \<open>A small instance\<close>

text \<open>
  The theorems below are applied to this instance: the field of \<open>101\<close> elements, a
  stand-in for the hash, and the list of scenario 1 of the spec (the hash of \<open>42\<close> at
  position \<open>3\<close>, \<open>0\<close> elsewhere).  \<open>example_witness\<close> is what the witness
  computation returns for the secret \<open>42\<close> and the index \<open>3\<close>.
\<close>

definition example_hash :: "int \<Rightarrow> int" where
  "example_hash x = (x * x + 5) mod 101"

definition example_list :: "int list" where
  "example_list = [0, 0, 0, 52, 0, 0, 0, 0, 0, 0]"

definition example_witness :: main_witness where
  "example_witness =
     \<lparr>main_hashes = [0, 0, 0, 52, 0, 0, 0, 0, 0, 0], main_r = 42, main_j = 3,
      main_c = \<lparr>c_r = 42, c_j = 3, c_hashes = [0, 0, 0, 52, 0, 0, 0, 0, 0, 0], c_hr = 52,
                c_eq_inv = [67, 50, 100, 0, 1, 51, 34, 76, 81, 17],
                c_sel = [0, 0, 0, 1, 0, 0, 0, 0, 0, 0],
                c_sumSel = [0, 0, 0, 0, 1, 1, 1, 1, 1, 1, 1],
                c_selectedHash = [0, 0, 0, 0, 52, 52, 52, 52, 52, 52, 52],
                c_ok = 1\<rparr>,
      main_ok = 1\<rparr>"

text \<open>
  An environment for the scripts: an others file with two entries, and the stand-in
  hash printed in decimal.  In \<open>example_argv\<close> the index argument is a no-break space
  (U+00A0) followed by \<open>10\<close>.
\<close>

definition example_env :: js_env where
  "example_env =
     \<lparr>env_readFileSync = (\<lambda>path. Inr (js ''[7, 8]'')),
      env_JSON_parse = (\<lambda>raw. Inr (JArray [JNumber 7 0, JNumber 8 0])),
      env_String =
        (\<lambda>v. case v of JString s \<Rightarrow> s | JNumber m e \<Rightarrow> show_nat (nat m) | _ \<Rightarrow> js ''null''),
      env_BigInt = (\<lambda>s. case parseInt10 s of None \<Rightarrow> Inl (SyntaxError s) | Some n \<Rightarrow> Inr n),
      env_poseidon = (\<lambda>x. show_nat (nat (example_hash x)))\<rparr>"

definition example_argv :: "js_string list" where
  "example_argv = [js ''node'', js ''get_input.js'', js ''42'', 0xA0 # js ''10'']"

section \<open>Proofs\<close>

subsection \<open>Facts about the field\<close>

lemma egcd_bezout: "egcd a b = (g, x, y) \<Longrightarrow> a * x + b * y = g"
proof (induction a b arbitrary: g x y rule: egcd.induct)
  case (1 a b)
  show ?case
  proof (cases "b = 0")
    case True
    with "1.prems" show ?thesis by (simp add: egcd.simps [of a 0])
  next
    case False
    obtain g' x' y' where rec: "egcd b (a mod b) = (g', x', y')"
      by (cases "egcd b (a mod b)") auto
    from "1.IH" [OF False rec] have ih: "b * x' + (a mod b) * y' = g'" .
    from False rec have "egcd a b = (g', y', x' - (a div b) * y')"
      by (simp add: egcd.simps [of a b])
    with "1.prems" have res: "g = g'" "x = y'" "y = x' - (a div b) * y'"
      by auto
    have "a = (a div b) * b + a mod b" by simp
    have "a * y' + b * (x' - (a div b) * y') = b * x' + (a - (a div b) * b) * y'"
      by (simp add: algebra_simps)
    also have "a - (a div b) * b = a mod b"
      by (simp add: minus_div_mult_eq_mod)
    finally have "a * y' + b * (x' - (a div b) * y') = b * x' + (a mod b) * y'" .
    with ih res show ?thesis by simp
  qed
qed

lemma egcd_dvd: "egcd a b = (g, x, y) \<Longrightarrow> g dvd a \<and> g dvd b"
proof (induction a b arbitrary: g x y rule: egcd.induct)
  case (1 a b)
  show ?case
  proof (cases "b = 0")
    case True
    with "1.prems" show ?thesis by (simp add: egcd.simps [of a 0])
  next
    case False
    obtain g' x' y' where rec: "egcd b (a mod b) = (g', x', y')"
      by (cases "egcd b (a mod b)") auto
    from "1.IH" [OF False rec] have ih: "g' dvd b" "g' dvd a mod b" by simp_all
    from False rec have "egcd a b = (g', y', x' - (a div b) * y')"
      by (simp add: egcd.simps [of a b])
    with "1.prems" have res: "g = g'"
      by simp
    from ih have "g' dvd a" by (simp add: dvd_mod_iff)
    with ih res show ?thesis by simp
  qed
qed

lemma egcd_nonneg: "0 \<le> a \<Longrightarrow> 0 \<le> b \<Longrightarrow> egcd a b = (g, x, y) \<Longrightarrow> 0 \<le> g"
proof (induction a b arbitrary: g x y rule: egcd.induct)
  case (1 a b)
  show ?case
  proof (cases "b = 0")
    case True
    with "1.prems" show ?thesis by (simp add: egcd.simps [of a 0])
  next
    case False
    obtain g' x' y' where rec: "egcd b (a mod b) = (g', x', y')"
      by (cases "egcd b (a mod b)") auto
    from False "1.prems" have "0 \<le> a mod b" by simp
    from "1.IH" [OF False "1.prems"(2) this rec] have ih: "0 \<le> g'" .
    from False rec have "egcd a b = (g', y', x' - (a div b) * y')"
      by (simp add: egcd.simps [of a b])
    with "1.prems" ih show ?thesis by simp
  qed
qed

lemma finv_inverse:
  assumes p: "prime_field p" and x: "x mod p \<noteq> 0"
  shows "fmul p x (finv p x) = 1"
proof -
  from p have p1: "1 < p" and nd: "\<And>d. 2 \<le> d \<Longrightarrow> d < p \<Longrightarrow> \<not> d dvd p"
    by (auto simp: prime_field_def)
  define a where "a = x mod p"
  from p1 have "0 \<le> a" "a < p" by (simp_all add: a_def)
  with x have a: "0 < a" "a < p" by (simp_all add: a_def)
  obtain g u v where e: "egcd a p = (g, u, v)"
    by (cases "egcd a p") auto
  from egcd_nonneg [OF _ _ e] a p1 have g0: "0 \<le> g" by simp
  from egcd_dvd [OF e] have gd: "g dvd a" "g dvd p" by simp_all
  from gd(1) a have "g \<noteq> 0" by auto
  from gd(1) a have "g \<le> a" by (simp add: zdvd_imp_le)
  with a have "g < p" by simp
  with nd [of g] gd(2) have "\<not> 2 \<le> g" by blast
  with g0 \<open>g \<noteq> 0\<close> have g1: "g = 1" by simp
  from egcd_bezout [OF e] g1 have bz: "a * u + p * v = 1" by simp
  have "fmul p x (finv p x) = (x * (u mod p)) mod p"
    using e by (simp add: fmul_def finv_def a_def)
  also have "\<dots> = (a * u) mod p"
    unfolding a_def by (metis mod_mult_eq mod_mod_trivial)
  also have "a * u = 1 - p * v"
    using bz by simp
  also have "(1 - p * v) mod p = 1 mod p"
    by (metis diff_zero mod_diff_right_eq mod_mult_self1_is_0)
  also have "\<dots> = 1" using p1 by simp
  finally show ?thesis .
qed

lemma fmul_zero_cases:
  assumes p: "prime_field p" and z: "fmul p a b = 0"
  shows "a mod p = 0 \<or> b mod p = 0"
proof (rule disjCI)
  assume nb: "b mod p \<noteq> 0"
  from finv_inverse [OF p nb] have i: "(b * finv p b) mod p = 1"
    by (simp add: fmul_def)
  from z have ab: "(a * b) mod p = 0" by (simp add: fmul_def)
  have "a mod p = (a * ((b * finv p b) mod p)) mod p"
    using i by simp
  also have "\<dots> = (((a * b) mod p) * finv p b) mod p"
    by (simp add: mod_mult_right_eq mod_mult_left_eq mult.assoc)
  also have "\<dots> = 0" using ab by simp
  finally show "a mod p = 0" .
qed

subsection \<open>Facts about the equality test and the loops\<close>

lemma prime_field_gt1: "prime_field p \<Longrightarrow> 1 < p"
  by (simp add: prime_field_def)

lemma finv_felt: "0 < p \<Longrightarrow> felt p (finv p x)"
  by (cases "egcd (x mod p) p") (simp add: finv_def felt_def)

lemma IsZero_zero: "1 < p \<Longrightarrow> IsZero p 0 = Inr (0, 1)"
  by (simp add: IsZero_def Let_def fadd_def fmul_def fneg_def)

lemma IsZero_nonzero:
  assumes p: "prime_field p" and x: "felt p x" "x \<noteq> 0"
  shows "IsZero p x = Inr (finv p x, 0)"
proof -
  from p have p1: "1 < p" by (rule prime_field_gt1)
  from x p1 have xm: "x mod p \<noteq> 0" by (simp add: felt_def)
  from finv_inverse [OF p xm] have i: "(x * finv p x) mod p = 1"
    by (simp add: fmul_def)
  from finv_felt [of p x] p1 have f: "finv p x mod p = finv p x"
    by (simp add: felt_def)
  have d: "fdiv p 1 x = finv p x"
    using f by (simp add: fdiv_def fmul_def)
  have "fadd p (fmul p (fneg p x) (finv p x)) 1 = (- (x * finv p x) + 1) mod p"
    by (simp add: fadd_def fmul_def fneg_def mod_mult_left_eq mod_add_left_eq)
  also have "\<dots> = (- ((x * finv p x) mod p) + 1) mod p"
    by (metis mod_add_left_eq mod_minus_eq)
  also have "\<dots> = 0" using i by simp
  finally have o: "fadd p (fmul p (fneg p x) (finv p x)) 1 = 0" .
  show ?thesis
    using x(2) d o by (simp add: IsZero_def Let_def fmul_def)
qed

lemma IsZero_constraints_out:
  assumes p: "prime_field p" and c: "IsZero_constraints p x iv out"
  shows "out = (if x mod p = 0 then 1 else 0)"
proof (cases "x mod p = 0")
  case True
  from p have p1: "1 < p" by (rule prime_field_gt1)
  from True have "(- x) mod p = 0" by (simp add: mod_eq_0_iff_dvd)
  with c p1 True show ?thesis
    by (simp add: IsZero_constraints_def fadd_def fmul_def fneg_def)
next
  case False
  from p have p1: "1 < p" by (rule prime_field_gt1)
  from c have z: "fmul p x out = 0" and o: "out = fadd p (fmul p (fneg p x) iv) 1"
    by (auto simp: IsZero_constraints_def)
  from fmul_zero_cases [OF p z] False have "out mod p = 0" by simp
  moreover from o have "out mod p = out" by (simp add: fadd_def)
  ultimately show ?thesis using False by simp
qed

lemma fsub_zero_iff:
  assumes "0 < p" "felt p i"
  shows "fsub p i j = 0 \<longleftrightarrow> j mod p = i"
proof -
  have "(i - j) mod p = 0 \<longleftrightarrow> i mod p = j mod p"
    by (simp add: mod_eq_dvd_iff mod_eq_0_iff_dvd)
  with assms show ?thesis by (auto simp: fsub_def felt_def)
qed

lemma fsub_felt: "0 < p \<Longrightarrow> felt p (fsub p a b)"
  by (simp add: fsub_def felt_def)

lemma IsEqual_out:
  assumes p: "prime_field p" and i: "felt p i"
  shows "\<exists>iv. IsEqual p j i = Inr (iv, if j mod p = i then 1 else 0) \<and> felt p iv"
proof -
  from p have p1: "1 < p" by (rule prime_field_gt1)
  show ?thesis
  proof (cases "fsub p i j = 0")
    case True
    with fsub_zero_iff [of p i j] p1 i have "j mod p = i" by simp
    with True p1 show ?thesis by (simp add: IsEqual_def IsZero_zero felt_def)
  next
    case False
    with fsub_zero_iff [of p i j] p1 i have "j mod p \<noteq> i" by simp
    moreover from p1 have "felt p (fsub p i j)" by (simp add: fsub_felt)
    from IsZero_nonzero [OF p this False]
    have "IsZero p (fsub p i j) = Inr (finv p (fsub p i j), 0)" .
    ultimately show ?thesis using finv_felt [of p] p1 by (simp add: IsEqual_def)
  qed
qed

lemma IsEqual_constraints_out:
  assumes p: "prime_field p" and i: "felt p i" and c: "IsEqual_constraints p j i iv out"
  shows "out = (if j mod p = i then 1 else 0)"
proof -
  from p have p1: "1 < p" by (rule prime_field_gt1)
  from c have "IsZero_constraints p (fsub p i j) iv out"
    by (simp add: IsEqual_constraints_def)
  from IsZero_constraints_out [OF p this]
  have "out = (if fsub p i j = 0 then 1 else 0)" by (simp add: fsub_def)
  with fsub_zero_iff [of p i j] p1 i show ?thesis by simp
qed


lemma sel_loop_out:
  assumes p: "prime_field p" and b: "\<forall>i\<in>set is. int i < p"
  shows "\<exists>eqs. sel_loop p j is = Inr eqs \<and>
           map snd eqs = map (\<lambda>i. if j mod p = int i then 1 else 0) is \<and>
           list_all (felt p) (map fst eqs)"
  using b
proof (induction "is")
  case Nil
  then show ?case by simp
next
  case (Cons i "is")
  from Cons.prems have "felt p (int i)" by (simp add: felt_def)
  from IsEqual_out [OF p this, of j] obtain iv where
    e: "IsEqual p j (int i) = Inr (iv, if j mod p = int i then 1 else 0)" and f: "felt p iv"
    by blast
  from Cons.IH Cons.prems obtain eqs where
    r: "sel_loop p j is = Inr eqs"
       "map snd eqs = map (\<lambda>i. if j mod p = int i then 1 else 0) is"
       "list_all (felt p) (map fst eqs)"
    by auto
  from e f r show ?case by simp
qed

lemma length_sumSel_loop: "length (sumSel_loop p s xs) = length xs + 1"
  by (induction xs arbitrary: s) simp_all

lemma sumSel_loop_nth:
  "k \<le> length xs \<Longrightarrow>
   sumSel_loop p s xs ! k = (if k = 0 then s else (s + sum_list (take k xs)) mod p)"
proof (induction xs arbitrary: s k)
  case Nil
  then show ?case by simp
next
  case (Cons x xs)
  show ?case
  proof (cases k)
    case 0
    then show ?thesis by simp
  next
    case (Suc k')
    with Cons.prems have "k' \<le> length xs" by simp
    from Cons.IH [OF this, of "fadd p s x"] Suc show ?thesis
      by (simp add: fadd_def mod_add_left_eq add.assoc)
  qed
qed

lemma sumSel_loop_felt: "felt p s \<Longrightarrow> 0 < p \<Longrightarrow> list_all (felt p) (sumSel_loop p s xs)"
  by (induction xs arbitrary: s) (simp_all add: felt_def fadd_def)

lemma length_selectedHash_loop:
  "length xs = length hs \<Longrightarrow> length (selectedHash_loop p s xs hs) = length xs + 1"
  by (induction p s xs hs rule: selectedHash_loop.induct) simp_all

lemma selectedHash_loop_nth:
  "length xs = length hs \<Longrightarrow> k \<le> length xs \<Longrightarrow>
   selectedHash_loop p s xs hs ! k =
     (if k = 0 then s else (s + sum_list (map2 (*) (take k xs) (take k hs))) mod p)"
proof (induction p s xs hs arbitrary: k rule: selectedHash_loop.induct)
  case (1 p s x xs h hs)
  show ?case
  proof (cases k)
    case 0
    then show ?thesis by simp
  next
    case (Suc k')
    with "1.prems" have "length xs = length hs" "k' \<le> length xs" by simp_all
    from "1.IH" [OF this] Suc show ?thesis
      by (simp add: fadd_def fmul_def mod_add_left_eq mod_add_right_eq add.assoc)
  qed
qed simp_all

lemma selectedHash_loop_felt:
  "felt p s \<Longrightarrow> 0 < p \<Longrightarrow> list_all (felt p) (selectedHash_loop p s xs hs)"
  by (induction p s xs hs rule: selectedHash_loop.induct) (simp_all add: felt_def fadd_def)


lemma indicator_one_hot:
  "map (\<lambda>i. if c = int i then 1 else 0) [0..<n] =
     (if 0 \<le> c \<and> c < int n then one_hot n (nat c) else replicate n (0::int))"
  by (auto simp: one_hot_def list_eq_iff_nth_eq)

lemma length_one_hot: "length (one_hot n k) = n"
  by (simp add: one_hot_def)

lemma sum_list_one_hot: "sum_list (one_hot n k) = (if k < n then 1 else 0)"
proof -
  have "sum_list (one_hot n k) = (\<Sum>i\<in>{0..<n}. if i = k then 1 else 0)"
    by (simp add: one_hot_def interv_sum_list_conv_sum_set_nat)
  also have "\<dots> = (if k < n then 1 else 0)"
    by (simp add: sum.delta)
  finally show ?thesis .
qed

lemma sum_list_one_hot_select:
  assumes "length hs = n" "k < n"
  shows "sum_list (map2 (*) (one_hot n k) hs) = hs ! k"
proof -
  have "map2 (*) (one_hot n k) hs = map (\<lambda>i. if i = k then hs ! i else 0) [0..<n]"
    using assms by (auto simp: one_hot_def list_eq_iff_nth_eq)
  then have "sum_list (map2 (*) (one_hot n k) hs) = (\<Sum>i\<in>{0..<n}. if i = k then hs ! i else 0)"
    by (simp add: interv_sum_list_conv_sum_set_nat)
  also have "\<dots> = hs ! k"
    using assms by (simp add: sum.delta)
  finally show ?thesis .
qed

lemma sum_list_zero_select:
  "sum_list (map2 (*) (replicate n (0::int)) hs) = 0"
  by (induction n arbitrary: hs) (auto simp: zip_Cons1 split: list.splits)

lemma sumSel_loop_unique:
  "length ys = length xs + 1 \<Longrightarrow> ys ! 0 = s \<Longrightarrow>
   (\<forall>i<length xs. ys ! (i + 1) = fadd p (ys ! i) (xs ! i)) \<Longrightarrow>
   ys = sumSel_loop p s xs"
proof (induction xs arbitrary: ys s)
  case Nil
  then show ?case by (cases ys) simp_all
next
  case (Cons x xs)
  from Cons.prems(1) obtain y ys' where ys: "ys = y # ys'" and l: "length ys' = length xs + 1"
    by (cases ys) auto
  from Cons.prems(2) ys have y: "y = s" by simp
  from Cons.prems(3) [rule_format, of 0] ys y have h: "ys' ! 0 = fadd p s x" by simp
  have "\<forall>i<length xs. ys' ! (i + 1) = fadd p (ys' ! i) (xs ! i)"
  proof (intro allI impI)
    fix i assume "i < length xs"
    with Cons.prems(3) [rule_format, of "Suc i"] ys show "ys' ! (i + 1) = fadd p (ys' ! i) (xs ! i)"
      by simp
  qed
  from Cons.IH [OF l h this] ys y show ?case by simp
qed

lemma singleton_list_eq: "length ys = Suc 0 \<Longrightarrow> ys ! 0 = s \<Longrightarrow> ys = [s]"
  by (cases ys) simp_all

lemma selectedHash_loop_unique:
  "length xs = length hs \<Longrightarrow> length ys = length xs + 1 \<Longrightarrow> ys ! 0 = s \<Longrightarrow>
   (\<forall>i<length xs. ys ! (i + 1) = fadd p (ys ! i) (fmul p (xs ! i) (hs ! i))) \<Longrightarrow>
   ys = selectedHash_loop p s xs hs"
proof (induction p s xs hs arbitrary: ys rule: selectedHash_loop.induct)
  case (1 p s x xs h hs)
  from "1.prems"(2) obtain y ys' where ys: "ys = y # ys'" and l: "length ys' = length xs + 1"
    by (cases ys) auto
  from "1.prems"(3) ys have y: "y = s" by simp
  from "1.prems"(4) [rule_format, of 0] ys y have h: "ys' ! 0 = fadd p s (fmul p x h)" by simp
  from "1.prems"(1) have e: "length xs = length hs" by simp
  have "\<forall>i<length xs. ys' ! (i + 1) = fadd p (ys' ! i) (fmul p (xs ! i) (hs ! i))"
  proof (intro allI impI)
    fix i assume "i < length xs"
    with "1.prems"(4) [rule_format, of "Suc i"] ys
    show "ys' ! (i + 1) = fadd p (ys' ! i) (fmul p (xs ! i) (hs ! i))"
      by simp
  qed
  from "1.IH" [OF e l h this] ys y show ?case by simp
qed (simp_all add: singleton_list_eq)


lemma sumSel_indicator:
  assumes "1 < p"
  shows "sumSel_loop p 0 (map (\<lambda>i. if c = int i then 1 else 0) [0..<n]) ! n =
           (if 0 \<le> c \<and> c < int n then 1 else 0)"
proof (cases "0 \<le> c \<and> c < int n")
  case True
  then have k: "nat c < n" and n: "n \<noteq> 0" by auto
  from True have "map (\<lambda>i. if c = int i then 1 else 0) [0..<n] = one_hot n (nat c)"
    by (simp add: indicator_one_hot)
  then show ?thesis
    using True k n assms by (simp add: sumSel_loop_nth length_one_hot sum_list_one_hot)
next
  case False
  then have "map (\<lambda>i. if c = int i then 1 else 0) [0..<n] = replicate n (0::int)"
    by (auto simp: indicator_one_hot)
  then show ?thesis
    using False by (auto simp: sumSel_loop_nth sum_list_replicate)
qed

lemma selectedHash_indicator:
  assumes "0 < p" "length hs = n"
  shows "selectedHash_loop p 0 (map (\<lambda>i. if c = int i then 1 else 0) [0..<n]) hs ! n =
           (if 0 \<le> c \<and> c < int n then hs ! nat c mod p else 0)"
proof (cases "0 \<le> c \<and> c < int n")
  case True
  then have k: "nat c < n" and n: "n \<noteq> 0" by auto
  from True have "map (\<lambda>i. if c = int i then 1 else 0) [0..<n] = one_hot n (nat c)"
    by (simp add: indicator_one_hot)
  then show ?thesis
    using True k n assms(2)
    by (simp add: selectedHash_loop_nth length_one_hot sum_list_one_hot_select)
next
  case False
  then have "map (\<lambda>i. if c = int i then 1 else 0) [0..<n] = replicate n (0::int)"
    by (auto simp: indicator_one_hot)
  then show ?thesis
    using False assms(2) by (auto simp: selectedHash_loop_nth sum_list_zero_select)
qed

lemma IsZero_Inr_constraints: "IsZero p x = Inr (iv, out) \<Longrightarrow> IsZero_constraints p x iv out"
  by (auto simp: IsZero_def IsZero_constraints_def Let_def split: if_splits)

lemma sel_loop_Inr_constraints:
  "sel_loop p j is = Inr eqs \<Longrightarrow>
   length eqs = length is \<and>
   (\<forall>k<length is. IsEqual_constraints p j (int (is ! k)) (fst (eqs ! k)) (snd (eqs ! k)))"
proof (induction "is" arbitrary: eqs)
  case Nil
  then show ?case by simp
next
  case (Cons i "is")
  from Cons.prems obtain eq eqs' where
    e: "IsEqual p j (int i) = Inr eq" and r: "sel_loop p j is = Inr eqs'" and q: "eqs = eq # eqs'"
    by (auto split: sum.splits)
  from e have c: "IsEqual_constraints p j (int i) (fst eq) (snd eq)"
    by (cases eq) (simp add: IsEqual_def IsEqual_constraints_def IsZero_Inr_constraints)
  from Cons.IH [OF r] have ih: "length eqs' = length is"
    "\<forall>k<length is. IsEqual_constraints p j (int (is ! k)) (fst (eqs' ! k)) (snd (eqs' ! k))"
    by simp_all
  show ?case
  proof (intro conjI allI impI)
    show "length eqs = length (i # is)" using q ih(1) by simp
  next
    fix k assume "k < length (i # is)"
    with c ih(2) q
    show "IsEqual_constraints p j (int ((i # is) ! k)) (fst (eqs ! k)) (snd (eqs ! k))"
      by (cases k) simp_all
  qed
qed

lemma sumSel_loop_step:
  "i < length xs \<Longrightarrow>
   sumSel_loop p s xs ! Suc i = fadd p (sumSel_loop p s xs ! i) (xs ! i)"
proof (induction xs arbitrary: s i)
  case Nil
  then show ?case by simp
next
  case (Cons x xs)
  show ?case
  proof (cases i)
    case 0
    then show ?thesis by (cases xs) simp_all
  next
    case (Suc i')
    with Cons.prems have "i' < length xs" by simp
    from Cons.IH [OF this, of "fadd p s x"] Suc show ?thesis by simp
  qed
qed

lemma sumSel_loop_0: "sumSel_loop p s xs ! 0 = s"
  by (cases xs) simp_all

lemma selectedHash_loop_0: "selectedHash_loop p s xs hs ! 0 = s"
  by (cases "(p, s, xs, hs)" rule: selectedHash_loop.cases) simp_all

lemma selectedHash_loop_step:
  "length xs = length hs \<Longrightarrow> i < length xs \<Longrightarrow>
   selectedHash_loop p s xs hs ! Suc i =
     fadd p (selectedHash_loop p s xs hs ! i) (fmul p (xs ! i) (hs ! i))"
proof (induction p s xs hs arbitrary: i rule: selectedHash_loop.induct)
  case (1 p s x xs h hs)
  show ?case
  proof (cases i)
    case 0
    then show ?thesis by (simp add: selectedHash_loop_0)
  next
    case (Suc i')
    with "1.prems" have "length xs = length hs" "i' < length xs" by simp_all
    from "1.IH" [OF this] Suc show ?thesis by simp
  qed
qed simp_all


lemma HashListCheckInternal_eval:
  assumes p: "prime_field p" and n: "int n \<le> p" and l: "length hashes = n"
  shows "\<exists>ivs. length ivs = n \<and> list_all (felt p) ivs \<and>
           HashListCheckInternal p H n r j hashes =
             (if j mod p < int n \<and> H r = hashes ! nat (j mod p) mod p
              then Inr \<lparr>c_r = r, c_j = j, c_hashes = hashes, c_hr = H r, c_eq_inv = ivs,
                        c_sel = one_hot n (nat (j mod p)),
                        c_sumSel = sumSel_loop p 0 (one_hot n (nat (j mod p))),
                        c_selectedHash = selectedHash_loop p 0 (one_hot n (nat (j mod p))) hashes,
                        c_ok = 1\<rparr>
              else Inl UnsatisfiableWitness)"
proof -
  from p have p1: "1 < p" by (rule prime_field_gt1)
  then have c0: "0 \<le> j mod p" by simp
  let ?ind = "map (\<lambda>i. if j mod p = int i then 1 else 0) [0..<n]"
  from n have "\<forall>i\<in>set [0..<n]. int i < p" by auto
  from sel_loop_out [OF p this, of j] obtain eqs where
    e: "sel_loop p j [0..<n] = Inr eqs" "map snd eqs = ?ind" "list_all (felt p) (map fst eqs)"
    by blast
  from e(2) have le: "length eqs = n"
    by (metis length_map length_upt minus_nat.diff_0)
  have s1: "sumSel_loop p 0 ?ind ! n = (if j mod p < int n then 1 else 0)"
    using sumSel_indicator [OF p1, of "j mod p" n] c0 by simp
  have s2: "selectedHash_loop p 0 ?ind hashes ! n =
              (if j mod p < int n then hashes ! nat (j mod p) mod p else 0)"
    using selectedHash_indicator [of p hashes n "j mod p"] p1 l c0 by simp
  have oh: "j mod p < int n \<Longrightarrow> ?ind = one_hot n (nat (j mod p))"
    using c0 by (simp add: indicator_one_hot)
  have "HashListCheckInternal p H n r j hashes =
          (if j mod p < int n \<and> H r = hashes ! nat (j mod p) mod p
           then Inr \<lparr>c_r = r, c_j = j, c_hashes = hashes, c_hr = H r, c_eq_inv = map fst eqs,
                     c_sel = one_hot n (nat (j mod p)),
                     c_sumSel = sumSel_loop p 0 (one_hot n (nat (j mod p))),
                     c_selectedHash = selectedHash_loop p 0 (one_hot n (nat (j mod p))) hashes,
                     c_ok = 1\<rparr>
           else Inl UnsatisfiableWitness)"
  proof (cases "j mod p < int n")
    case True
    with e(1) e(2) s1 s2 oh show ?thesis
      by (simp add: HashListCheckInternal_def Let_def)
  next
    case False
    with e(1) e(2) s1 show ?thesis
      by (simp add: HashListCheckInternal_def Let_def)
  qed
  with le e(3) show ?thesis by (intro exI [of _ "map fst eqs"]) simp
qed

lemma HashListCheckInternal_constraints_char:
  assumes p: "prime_field p" and n: "int n \<le> p"
    and c: "HashListCheckInternal_constraints p H n w"
  shows "c_j w mod p < int n"
    and "c_sel w = one_hot n (nat (c_j w mod p))"
    and "c_sumSel w = sumSel_loop p 0 (c_sel w)"
    and "c_selectedHash w = selectedHash_loop p 0 (c_sel w) (c_hashes w)"
    and "H (c_r w) = c_hashes w ! nat (c_j w mod p) mod p"
proof -
  from p have p1: "1 < p" by (rule prime_field_gt1)
  then have c0: "0 \<le> c_j w mod p" by simp
  let ?ind = "map (\<lambda>i. if c_j w mod p = int i then 1 else 0) [0..<n]"
  from c have len: "length (c_hashes w) = n" "length (c_sel w) = n"
      "length (c_sumSel w) = n + 1" "length (c_selectedHash w) = n + 1"
    and eqc: "\<forall>i\<in>{0..<n}. IsEqual_constraints p (c_j w) (int i) (c_eq_inv w ! i) (c_sel w ! i)"
    and su: "c_sumSel w ! 0 = 0"
      "\<forall>i\<in>{0..<n}. c_sumSel w ! (i + 1) = fadd p (c_sumSel w ! i) (c_sel w ! i)"
      "c_sumSel w ! n = 1"
    and sh: "c_selectedHash w ! 0 = 0"
      "\<forall>i\<in>{0..<n}. c_selectedHash w ! (i + 1) =
          fadd p (c_selectedHash w ! i) (fmul p (c_sel w ! i) (c_hashes w ! i))"
      "c_hr w = c_selectedHash w ! n"
    and hr: "c_hr w = H (c_r w)"
    by (simp_all add: HashListCheckInternal_constraints_def)
  have sel: "c_sel w = ?ind"
  proof (rule nth_equalityI)
    show "length (c_sel w) = length ?ind" using len by simp
  next
    fix i assume "i < length (c_sel w)"
    with len have i: "i < n" by simp
    with n have "felt p (int i)" by (simp add: felt_def)
    moreover from eqc i
    have "IsEqual_constraints p (c_j w) (int i) (c_eq_inv w ! i) (c_sel w ! i)" by simp
    ultimately have "c_sel w ! i = (if c_j w mod p = int i then 1 else 0)"
      by (rule IsEqual_constraints_out [OF p])
    with i show "c_sel w ! i = ?ind ! i" by simp
  qed
  show ss: "c_sumSel w = sumSel_loop p 0 (c_sel w)"
    using len su(1,2) by (intro sumSel_loop_unique) auto
  show sH: "c_selectedHash w = selectedHash_loop p 0 (c_sel w) (c_hashes w)"
    using len sh(1,2) by (intro selectedHash_loop_unique) auto
  from su(3) ss sel have "sumSel_loop p 0 ?ind ! n = 1" by simp
  with sumSel_indicator [OF p1, of "c_j w mod p" n] show r: "c_j w mod p < int n"
    by (simp split: if_splits)
  with sel c0 show "c_sel w = one_hot n (nat (c_j w mod p))"
    by (simp add: indicator_one_hot)
  from sh(3) sH sel hr have "H (c_r w) = selectedHash_loop p 0 ?ind (c_hashes w) ! n" by simp
  with selectedHash_indicator [of p "c_hashes w" n "c_j w mod p"] p1 len(1) r c0
  show "H (c_r w) = c_hashes w ! nat (c_j w mod p) mod p" by simp
qed

lemma HashListCheckInternal_Inr_constraints:
  assumes r: "HashListCheckInternal p H n r j hashes = Inr w" and l: "length hashes = n"
  shows "HashListCheckInternal_constraints p H n w"
proof -
  from r obtain eqs where e: "sel_loop p j [0..<n] = Inr eqs"
    by (auto simp: HashListCheckInternal_def Let_def split: sum.splits)
  let ?sel = "map snd eqs"
  from r e have chk: "sumSel_loop p 0 ?sel ! n = 1"
      "H r = selectedHash_loop p 0 ?sel hashes ! n"
    and w: "w = \<lparr>c_r = r, c_j = j, c_hashes = hashes, c_hr = H r,
                  c_eq_inv = map fst eqs, c_sel = ?sel, c_sumSel = sumSel_loop p 0 ?sel,
                  c_selectedHash = selectedHash_loop p 0 ?sel hashes, c_ok = 1\<rparr>"
    by (auto simp: HashListCheckInternal_def Let_def split: if_splits)
  from sel_loop_Inr_constraints [OF e] have le: "length eqs = n"
    and ec: "\<forall>k<n. IsEqual_constraints p j (int k) (fst (eqs ! k)) (snd (eqs ! k))"
    by auto
  have st1: "\<forall>i\<in>{0..<n}. sumSel_loop p 0 ?sel ! (i + 1) =
                fadd p (sumSel_loop p 0 ?sel ! i) (?sel ! i)"
    using le by (simp add: sumSel_loop_step)
  have st2: "\<forall>i\<in>{0..<n}. selectedHash_loop p 0 ?sel hashes ! (i + 1) =
                fadd p (selectedHash_loop p 0 ?sel hashes ! i) (fmul p (?sel ! i) (hashes ! i))"
    using le l by (simp add: selectedHash_loop_step)
  show ?thesis
    unfolding HashListCheckInternal_constraints_def w
    using chk le ec l st1 st2
    by (simp add: length_sumSel_loop length_selectedHash_loop sumSel_loop_0
        selectedHash_loop_0)
qed

lemma one_hot_felt: "1 < p \<Longrightarrow> list_all (felt p) (one_hot n k)"
  by (auto simp: one_hot_def list_all_iff felt_def)

lemma synthesize_witness_Inr_constraints:
  assumes "synthesize_witness p H secret index list = Inr m"
  shows "component_main_constraints p H m"
proof -
  from assms have l: "length list = 10"
    by (simp add: synthesize_witness_def split: if_splits)
  with assms obtain c where
    c: "HashListCheckInternal p H 10 secret index list = Inr c"
    and m: "m = \<lparr>main_hashes = list, main_r = secret, main_j = index, main_c = c,
                  main_ok = c_ok c\<rparr>"
    by (auto simp: synthesize_witness_def component_main_def Main_def split: sum.splits)
  from HashListCheckInternal_Inr_constraints [OF c l]
  have hc: "HashListCheckInternal_constraints p H 10 c" .
  from c have "c_hashes c = list" "c_r c = secret" "c_j c = index"
    by (auto simp: HashListCheckInternal_def Let_def split: sum.splits if_splits)
  with hc l m show ?thesis
    by (simp add: component_main_constraints_def Main_constraints_def)
qed

lemma sel_loop_nth:
  "sel_loop p j is = Inr eqs \<Longrightarrow> k < length is \<Longrightarrow> IsEqual p j (int (is ! k)) = Inr (eqs ! k)"
proof (induction "is" arbitrary: eqs k)
  case Nil
  then show ?case by simp
next
  case (Cons i "is")
  from Cons.prems(1) obtain eq eqs' where
    e: "IsEqual p j (int i) = Inr eq" and r: "sel_loop p j is = Inr eqs'" and q: "eqs = eq # eqs'"
    by (auto split: sum.splits)
  show ?case
  proof (cases k)
    case 0
    with e q show ?thesis by simp
  next
    case (Suc k')
    with Cons.prems(2) have "k' < length is" by simp
    from Cons.IH [OF r this] Suc q show ?thesis by simp
  qed
qed

lemma one_hot_nth: "i < n \<Longrightarrow> one_hot n k ! i = (if i = k then 1 else 0)"
  by (simp add: one_hot_def)

lemma component_main_constraints_sel:
  assumes p: "prime_field p" and p10: "10 < p" and c: "component_main_constraints p H m"
  shows "main_j m mod p < 10" and "c_sel (main_c m) = one_hot 10 (nat (main_j m mod p))"
proof -
  from p10 have n: "int 10 \<le> p" by simp
  from c have h: "HashListCheckInternal_constraints p H 10 (main_c m)"
    and j: "c_j (main_c m) = main_j m"
    by (simp_all add: component_main_constraints_def Main_constraints_def)
  from HashListCheckInternal_constraints_char(1) [OF p n h] j
  show "main_j m mod p < 10" by simp
  from HashListCheckInternal_constraints_char(2) [OF p n h] j
  show "c_sel (main_c m) = one_hot 10 (nat (main_j m mod p))" by simp
qed

lemma constraints_determine_witness:
  assumes p: "prime_field p" and p10: "10 < p" and c: "component_main_constraints p H m"
  shows "\<exists>m0. synthesize_witness p H (main_r m) (main_j m) (main_hashes m) = Inr m0 \<and>
           m = m0\<lparr>main_c := (main_c m0)\<lparr>c_eq_inv := c_eq_inv (main_c m)\<rparr>\<rparr>"
proof -
  from p10 have n: "int 10 \<le> p" by simp
  from c have h: "HashListCheckInternal_constraints p H 10 (main_c m)"
    and e: "c_j (main_c m) = main_j m" "c_r (main_c m) = main_r m"
      "c_hashes (main_c m) = main_hashes m" "main_ok m = c_ok (main_c m)"
    and l: "length (main_hashes m) = 10"
    by (simp_all add: component_main_constraints_def Main_constraints_def)
  note ch = HashListCheckInternal_constraints_char [OF p n h]
  from h have hr: "c_hr (main_c m) = H (c_r (main_c m))" and ok: "c_ok (main_c m) = 1"
    by (simp_all add: HashListCheckInternal_constraints_def)
  let ?k = "nat (main_j m mod p)"
  from HashListCheckInternal_eval [OF p n l, of H "main_r m" "main_j m"] ch(1) ch(5) e
  obtain ivs where
    r: "HashListCheckInternal p H 10 (main_r m) (main_j m) (main_hashes m) =
          Inr \<lparr>c_r = main_r m, c_j = main_j m, c_hashes = main_hashes m, c_hr = H (main_r m),
               c_eq_inv = ivs, c_sel = one_hot 10 ?k,
               c_sumSel = sumSel_loop p 0 (one_hot 10 ?k),
               c_selectedHash = selectedHash_loop p 0 (one_hot 10 ?k) (main_hashes m),
               c_ok = 1\<rparr>"
    by auto
  let ?c = "\<lparr>c_r = main_r m, c_j = main_j m, c_hashes = main_hashes m, c_hr = H (main_r m),
               c_eq_inv = ivs, c_sel = one_hot 10 ?k,
               c_sumSel = sumSel_loop p 0 (one_hot 10 ?k),
               c_selectedHash = selectedHash_loop p 0 (one_hot 10 ?k) (main_hashes m),
               c_ok = 1\<rparr>"
  let ?m0 = "\<lparr>main_hashes = main_hashes m, main_r = main_r m, main_j = main_j m,
               main_c = ?c, main_ok = 1\<rparr>"
  from r l have s: "synthesize_witness p H (main_r m) (main_j m) (main_hashes m) = Inr ?m0"
    by (simp add: synthesize_witness_def component_main_def Main_def)
  have "main_c m = ?c\<lparr>c_eq_inv := c_eq_inv (main_c m)\<rparr>"
    using ch(2,3,4) e hr ok by (intro witness.equality) (simp_all add: e)
  then have "m = ?m0\<lparr>main_c := (main_c ?m0)\<lparr>c_eq_inv := c_eq_inv (main_c m)\<rparr>\<rparr>"
    using e(4) ok by (intro main_witness.equality) simp_all
  with s show ?thesis by blast
qed

lemma synthesize_witness_Inr_inputs:
  assumes "synthesize_witness p H secret index list = Inr m"
  shows "length list = 10" and "main_j m = index" and "main_r m = secret"
    and "main_hashes m = list"
  using assms
  by (auto simp: synthesize_witness_def component_main_def Main_def split: if_splits sum.splits)

subsection \<open>Facts about the runs\<close>


















subsection \<open>Facts about the input builders\<close>

lemma get_input_Inr_index:
  assumes "get_input env argv = Inr inp"
  shows "parseInt10 (or_default (argv_at argv 3) (js ''0'')) = None \<and> in_j inp = js ''NaN'' \<or>
         (\<exists>n. parseInt10 (or_default (argv_at argv 3) (js ''0'')) = Some n \<and> 0 \<le> n \<and> n \<le> 9 \<and>
              in_j inp = show_nat (nat n))"
  using assms
  by (cases "parseInt10 (or_default (argv_at argv 3) (js ''0''))")
    (auto simp: get_input_def Let_def js_lt_def js_gt_def js_String_number_def
      split: sum.splits if_splits)

lemma get_input_with_others_Inr:
  assumes "get_input_with_others env dirname argv = Inr inp"
  shows "\<exists>raw xs h. env_readFileSync env (others_path dirname argv) = Inr raw \<and>
           env_JSON_parse env raw = Inr (JArray xs) \<and> length xs = 9 \<and>
           in_hashes inp = map (env_String env) xs @ [h]"
proof -
  from assms obtain raw where raw: "env_readFileSync env (others_path dirname argv) = Inr raw"
    by (auto simp: get_input_with_others_def Let_def split: if_splits sum.splits)
  with assms obtain others where o: "env_JSON_parse env raw = Inr others"
    by (auto simp: get_input_with_others_def Let_def split: if_splits sum.splits)
  with assms raw have ok: "Array_isArray others" "length (array_elements others) = 9"
    by (auto simp: get_input_with_others_def Let_def split: if_splits sum.splits)
  then obtain xs where xs: "others = JArray xs" "length xs = 9"
    by (cases others) simp_all
  from assms raw o xs obtain h where "in_hashes inp = map (env_String env) xs @ [h]"
    by (auto simp: get_input_with_others_def Let_def split: if_splits sum.splits)
  with raw o xs show ?thesis by blast
qed

lemma get_input_with_others_shape_error:
  assumes s: "truthy (argv_at argv 2)"
    and f: "env_readFileSync env (others_path dirname argv) = Inr raw"
    and b: "raw \<noteq> []" "js_trim raw \<noteq> []"
    and q: "env_JSON_parse env raw = Inr others"
    and n: "\<not> (\<exists>xs. others = JArray xs \<and> length xs = 9)"
  shows "get_input_with_others env dirname argv = Inl (Error shape_message)"
proof -
  from n have "\<not> Array_isArray others \<or> length (array_elements others) \<noteq> 9"
    by (cases others) simp_all
  with s f b q show ?thesis
    by (simp add: get_input_with_others_def Let_def)
qed

subsection \<open>The instance\<close>

lemma prime_field_101: "prime_field 101"
  unfolding prime_field_def by code_simp

lemma example_list_wf: "length example_list = 10" "list_all (felt 101) example_list"
  by (simp_all add: example_list_def felt_def)

lemma example_synthesis:
  "synthesize_witness 101 example_hash 42 3 example_list = Inr example_witness"
  by code_simp

lemma example_out_of_range:
  "synthesize_witness 101 example_hash 42 10 example_list = Inl UnsatisfiableWitness"
  by code_simp

section \<open>The claims\<close>

text \<open>
  C1 (completeness).  For every list of exactly 10 field elements and every index in
  \<open>[0, 9]\<close>: if the hash of the secret is the list's entry at the index, witness
  synthesis succeeds, the computed assignment satisfies every constraint of the main
  component and consists of field elements, and the public output is \<open>1\<close>.
\<close>

theorem completeness:
  assumes p: "prime_field p" and p10: "10 < p"
    and l: "length list = 10" and f: "list_all (felt p) list"
    and i: "0 \<le> index" "index \<le> 9"
    and h: "H secret = list ! nat index"
  shows "\<exists>m. synthesize_witness p H secret index list = Inr m \<and>
           component_main_constraints p H m \<and> wf_witness p m \<and>
           main_hashes m = list \<and> main_r m = secret \<and> main_j m = index \<and>
           public_output m = 1"
proof -
  from p have p1: "1 < p" by (rule prime_field_gt1)
  from i p10 have im: "index mod p = index" by simp
  from i l have "nat index < length list" by simp
  with f have fh: "felt p (list ! nat index)" by (simp add: list_all_length)
  then have hm: "list ! nat index mod p = list ! nat index" by (simp add: felt_def)
  from p10 have n: "int 10 \<le> p" by simp
  from HashListCheckInternal_eval [OF p n l, of H secret index] im i h hm
  obtain ivs where iv: "list_all (felt p) ivs"
    and c: "HashListCheckInternal p H 10 secret index list =
              Inr \<lparr>c_r = secret, c_j = index, c_hashes = list, c_hr = H secret, c_eq_inv = ivs,
                   c_sel = one_hot 10 (nat index),
                   c_sumSel = sumSel_loop p 0 (one_hot 10 (nat index)),
                   c_selectedHash = selectedHash_loop p 0 (one_hot 10 (nat index)) list,
                   c_ok = 1\<rparr>"
    by auto
  let ?c = "\<lparr>c_r = secret, c_j = index, c_hashes = list, c_hr = H secret, c_eq_inv = ivs,
                   c_sel = one_hot 10 (nat index),
                   c_sumSel = sumSel_loop p 0 (one_hot 10 (nat index)),
                   c_selectedHash = selectedHash_loop p 0 (one_hot 10 (nat index)) list,
                   c_ok = 1\<rparr>"
  let ?m = "\<lparr>main_hashes = list, main_r = secret, main_j = index, main_c = ?c, main_ok = 1\<rparr>"
  from c l have s: "synthesize_witness p H secret index list = Inr ?m"
    by (simp add: synthesize_witness_def component_main_def Main_def)
  have z: "felt p 0" using p1 by (simp add: felt_def)
  have wf: "wf_witness p ?m"
    using p1 iv fh h
    by (simp add: wf_witness_def one_hot_felt sumSel_loop_felt [OF z]
        selectedHash_loop_felt [OF z]) (simp add: felt_def)
  from synthesize_witness_Inr_constraints [OF s] s wf show ?thesis
    by (intro exI [of _ ?m]) (simp add: public_output_def)
qed

theorem completeness_witness:
  "prime_field 101 \<and> (10::int) < 101 \<and> length example_list = 10 \<and>
   list_all (felt 101) example_list \<and> (0::int) \<le> 3 \<and> (3::int) \<le> 9 \<and>
   example_hash 42 = example_list ! nat 3 \<and>
   (\<exists>m. synthesize_witness 101 example_hash 42 3 example_list = Inr m \<and>
        component_main_constraints 101 example_hash m \<and> wf_witness 101 m \<and>
        main_hashes m = example_list \<and> main_r m = 42 \<and> main_j m = 3 \<and>
        public_output m = 1)"
proof -
  have e: "example_hash 42 = example_list ! nat 3"
    by (simp add: example_hash_def example_list_def)
  have "\<exists>m. synthesize_witness 101 example_hash 42 3 example_list = Inr m \<and>
        component_main_constraints 101 example_hash m \<and> wf_witness 101 m \<and>
        main_hashes m = example_list \<and> main_r m = 42 \<and> main_j m = 3 \<and>
        public_output m = 1"
    using completeness [where p = 101 and H = example_hash and secret = 42 and index = 3
        and list = example_list] prime_field_101 example_list_wf e
    by simp
  with prime_field_101 example_list_wf e show ?thesis by simp
qed

text \<open>
  C2 (out-of-range rejection).  For every value of the index that does not reduce,
  modulo the field size, to one of \<open>0, \<dots>, 9\<close>: every selector the loop computes
  is \<open>0\<close>, the selector sum \<open>sumSel[10]\<close> is \<open>0\<close>, witness synthesis fails with
  \<open>UnsatisfiableWitness\<close>, and no assignment of the signals with that index
  satisfies the constraints, whatever hints the prover picks.
\<close>

theorem out_of_range_rejection:
  assumes p: "prime_field p" and p10: "10 < p"
    and l: "length list = 10"
    and i: "index mod p \<notin> {0..9}"
  shows "(\<exists>eqs. sel_loop p index [0..<10] = Inr eqs \<and> map snd eqs = replicate 10 0 \<and>
            sumSel_loop p 0 (map snd eqs) ! 10 = 0) \<and>
         synthesize_witness p H secret index list = Inl UnsatisfiableWitness \<and>
         (\<forall>m::main_witness. main_j m = index \<longrightarrow> \<not> component_main_constraints p H m)"
proof (intro conjI allI impI)
  from p have p1: "1 < p" by (rule prime_field_gt1)
  from p1 have c0: "0 \<le> index mod p" by simp
  with i have r: "\<not> index mod p < int 10" by auto
  from p10 have n: "int 10 \<le> p" by simp
  then have "\<forall>i\<in>set [0..<10]. int i < p" by auto
  from sel_loop_out [OF p this, of index] obtain eqs where
    e: "sel_loop p index [0..<10] = Inr eqs"
       "map snd eqs = map (\<lambda>i. if index mod p = int i then 1 else 0) [0..<10]"
    by blast
  from r have z: "map (\<lambda>i. if index mod p = int i then 1 else 0) [0..<10] = replicate 10 (0::int)"
    by (auto simp: indicator_one_hot)
  from sumSel_indicator [OF p1, of "index mod p" 10] r e(2)
  have "sumSel_loop p 0 (map snd eqs) ! 10 = 0" by simp
  with e z show "\<exists>eqs. sel_loop p index [0..<10] = Inr eqs \<and> map snd eqs = replicate 10 0 \<and>
            sumSel_loop p 0 (map snd eqs) ! 10 = 0"
    by simp
  from HashListCheckInternal_eval [OF p n l, of H secret index] r l
  show "synthesize_witness p H secret index list = Inl UnsatisfiableWitness"
    by (auto simp: synthesize_witness_def component_main_def Main_def)
  fix m :: main_witness assume j: "main_j m = index"
  show "\<not> component_main_constraints p H m"
  proof
    assume "component_main_constraints p H m"
    then have "HashListCheckInternal_constraints p H 10 (main_c m)" "c_j (main_c m) = main_j m"
      by (simp_all add: component_main_constraints_def Main_constraints_def)
    from HashListCheckInternal_constraints_char(1) [OF p n this(1)] this(2) j r
    show False by simp
  qed
qed

theorem out_of_range_rejection_witness:
  "prime_field 101 \<and> (10::int) < 101 \<and> length example_list = 10 \<and>
   (10::int) mod 101 \<notin> {0..9} \<and>
   synthesize_witness 101 example_hash 42 10 example_list = Inl UnsatisfiableWitness"
  using out_of_range_rejection [where p = 101 and H = example_hash and secret = 42
      and index = 10 and list = example_list] prime_field_101 example_list_wf
  by simp

text \<open>
  C3 (soundness under tampering).  For every index in \<open>[0, 9]\<close>: if the hash of the
  secret differs from the list's entry at the index, witness synthesis fails with
  \<open>UnsatisfiableWitness\<close>; the selected value \<open>selectedHash[10]\<close> is that entry, so
  the constraint \<open>hr === selectedHash[n]\<close> is the one violated, and no assignment
  with these inputs satisfies the constraints.
\<close>

theorem soundness_under_tampering:
  assumes p: "prime_field p" and p10: "10 < p"
    and l: "length list = 10" and f: "list_all (felt p) list"
    and i: "0 \<le> index" "index \<le> 9"
    and h: "H secret \<noteq> list ! nat index"
  shows "synthesize_witness p H secret index list = Inl UnsatisfiableWitness \<and>
         selectedHash_loop p 0 (one_hot 10 (nat index)) list ! 10 = list ! nat index \<and>
         (\<forall>m::main_witness. main_r m = secret \<and> main_j m = index \<and> main_hashes m = list \<longrightarrow>
              \<not> component_main_constraints p H m)"
proof (intro conjI allI impI)
  from p have p1: "1 < p" by (rule prime_field_gt1)
  from i p10 have im: "index mod p = index" by simp
  from i l have "nat index < length list" by simp
  with f have "felt p (list ! nat index)" by (simp add: list_all_length)
  then have hm: "list ! nat index mod p = list ! nat index" by (simp add: felt_def)
  from p10 have n: "int 10 \<le> p" by simp
  from HashListCheckInternal_eval [OF p n l, of H secret index] im h hm l
  show "synthesize_witness p H secret index list = Inl UnsatisfiableWitness"
    by (auto simp: synthesize_witness_def component_main_def Main_def)
  from i have "map (\<lambda>k. if index = int k then 1 else 0) [0..<10] = one_hot 10 (nat index)"
    by (simp add: indicator_one_hot)
  with selectedHash_indicator [of p list 10 index] p1 l i hm
  show "selectedHash_loop p 0 (one_hot 10 (nat index)) list ! 10 = list ! nat index"
    by simp
  fix m :: main_witness assume a: "main_r m = secret \<and> main_j m = index \<and> main_hashes m = list"
  show "\<not> component_main_constraints p H m"
  proof
    assume "component_main_constraints p H m"
    then have c: "HashListCheckInternal_constraints p H 10 (main_c m)"
      and e: "c_j (main_c m) = main_j m" "c_r (main_c m) = main_r m"
        "c_hashes (main_c m) = main_hashes m"
      by (simp_all add: component_main_constraints_def Main_constraints_def)
    from HashListCheckInternal_constraints_char(5) [OF p n c] e a im hm h
    show False by simp
  qed
qed

theorem soundness_under_tampering_witness:
  "prime_field 101 \<and> (10::int) < 101 \<and> length example_list = 10 \<and>
   list_all (felt 101) example_list \<and> (0::int) \<le> 3 \<and> (3::int) \<le> 9 \<and>
   example_hash 43 \<noteq> example_list ! nat 3 \<and>
   synthesize_witness 101 example_hash 43 3 example_list = Inl UnsatisfiableWitness"
proof -
  have e: "example_hash 43 \<noteq> example_list ! nat 3"
    by (simp add: example_hash_def example_list_def)
  with soundness_under_tampering [where p = 101 and H = example_hash and secret = 43
      and index = 3 and list = example_list] prime_field_101 example_list_wf
  show ?thesis by simp
qed

text \<open>
  C4 (one-hot invariant).  For every successful synthesis, and for every assignment
  that satisfies the constraints of the main component: the selector vector has 10
  entries, each \<open>0\<close> or \<open>1\<close>; the index signal \<open>j\<close> of the inner component is the one
  of the main component and reduces modulo the field size to a position below 10; the
  entry at that position is \<open>1\<close> and every other entry is \<open>0\<close>.  In a witness that
  synthesis returns, the index signal is the index supplied, so the \<open>1\<close> stands at the
  position of the claimed index.
\<close>

theorem one_hot_invariant:
  assumes p: "prime_field p" and p10: "10 < p"
    and s: "synthesize_witness p H secret index list = Inr m \<or> component_main_constraints p H m"
  shows "length (c_sel (main_c m)) = 10 \<and>
         (\<forall>i\<in>{0..<10}. c_sel (main_c m) ! i = 0 \<or> c_sel (main_c m) ! i = 1) \<and>
         main_j m mod p < 10 \<and>
         c_sel (main_c m) ! nat (main_j m mod p) = 1 \<and>
         (\<forall>i\<in>{0..<10}. i \<noteq> nat (main_j m mod p) \<longrightarrow> c_sel (main_c m) ! i = 0) \<and>
         c_sel (main_c m) = one_hot 10 (nat (main_j m mod p)) \<and>
         c_j (main_c m) = main_j m \<and>
         (synthesize_witness p H secret index list = Inr m \<longrightarrow>
            main_j m = index \<and> c_sel (main_c m) = one_hot 10 (nat (index mod p)))"
proof -
  from s have c: "component_main_constraints p H m"
    using synthesize_witness_Inr_constraints by blast
  from p have "0 < p" by (simp add: prime_field_def)
  then have c0: "0 \<le> main_j m mod p" by simp
  note r = component_main_constraints_sel [OF p p10 c]
  from r(1) c0 have k: "nat (main_j m mod p) < 10" by simp
  from c have cj: "c_j (main_c m) = main_j m"
    by (simp add: component_main_constraints_def Main_constraints_def)
  have "length (c_sel (main_c m)) = 10 \<and>
         (\<forall>i\<in>{0..<10}. c_sel (main_c m) ! i = 0 \<or> c_sel (main_c m) ! i = 1) \<and>
         main_j m mod p < 10 \<and>
         c_sel (main_c m) ! nat (main_j m mod p) = 1 \<and>
         (\<forall>i\<in>{0..<10}. i \<noteq> nat (main_j m mod p) \<longrightarrow> c_sel (main_c m) ! i = 0)"
    using r k by (simp add: length_one_hot one_hot_nth)
  moreover have "synthesize_witness p H secret index list = Inr m \<longrightarrow>
            main_j m = index \<and> c_sel (main_c m) = one_hot 10 (nat (index mod p))"
    using r(2) synthesize_witness_Inr_inputs(2) by fastforce
  ultimately show ?thesis using r(2) cj by blast
qed

theorem one_hot_invariant_witness:
  "prime_field 101 \<and> (10::int) < 101 \<and>
   synthesize_witness 101 example_hash 42 3 example_list = Inr example_witness \<and>
   main_j example_witness = 3 \<and>
   c_sel (main_c example_witness) = one_hot 10 (nat (3 mod 101)) \<and>
   c_sel (main_c example_witness) ! nat (main_j example_witness mod 101) = 1"
proof -
  have "synthesize_witness 101 example_hash 42 3 example_list = Inr example_witness \<or>
        component_main_constraints 101 example_hash example_witness"
    using example_synthesis by simp
  moreover have t: "(10::int) < 101" by simp
  ultimately have "main_j example_witness = 3 \<and>
      c_sel (main_c example_witness) = one_hot 10 (nat (3 mod 101)) \<and>
      c_sel (main_c example_witness) ! nat (main_j example_witness mod 101) = 1"
    using one_hot_invariant [OF prime_field_101, where H = example_hash and secret = 42
        and index = 3 and list = example_list and m = example_witness] example_synthesis
    by blast
  with prime_field_101 example_synthesis t show ?thesis by blast
qed

text \<open>
  C5 (selection accumulator).  The accumulator loop starts at \<open>0\<close> and each step adds
  \<open>sel[i] * list[i]\<close> in the field; when the selector vector is one-hot with its \<open>1\<close>
  at position \<open>j\<close>, the final accumulator \<open>acc[n]\<close> is the field element \<open>list[j]\<close>.
\<close>

theorem selection_accumulator:
  assumes p: "0 < p" and l: "length sel = n" "length list = n"
  shows "selectedHash_loop p 0 sel list ! 0 = 0 \<and>
         (\<forall>i\<in>{0..<n}. selectedHash_loop p 0 sel list ! (i + 1) =
            fadd p (selectedHash_loop p 0 sel list ! i) (fmul p (sel ! i) (list ! i))) \<and>
         (\<forall>j. j < n \<and> sel = one_hot n j \<and> felt p (list ! j) \<longrightarrow>
            selectedHash_loop p 0 sel list ! n = list ! j)"
proof (intro conjI ballI allI impI)
  show "selectedHash_loop p 0 sel list ! 0 = 0" by (rule selectedHash_loop_0)
next
  fix i assume "i \<in> {0..<n}"
  with l show "selectedHash_loop p 0 sel list ! (i + 1) =
            fadd p (selectedHash_loop p 0 sel list ! i) (fmul p (sel ! i) (list ! i))"
    by (simp add: selectedHash_loop_step)
next
  fix j assume a: "j < n \<and> sel = one_hot n j \<and> felt p (list ! j)"
  then have "map (\<lambda>k. if int j = int k then 1 else 0) [0..<n] = sel"
    by (auto simp: one_hot_def)
  with selectedHash_indicator [OF p l(2), of "int j"] a
  show "selectedHash_loop p 0 sel list ! n = list ! j"
    by (simp add: felt_def)
qed

theorem selection_accumulator_witness:
  "(0::int) < 101 \<and> length (one_hot 10 3) = 10 \<and> length example_list = 10 \<and>
   felt 101 (example_list ! 3) \<and>
   selectedHash_loop 101 0 (one_hot 10 3) example_list ! 10 = example_list ! 3"
  using selection_accumulator [where p = 101 and sel = "one_hot 10 3" and n = 10
      and list = example_list] example_list_wf
  by (simp add: length_one_hot) (simp add: example_list_def felt_def)

text \<open>
  C6 (selector builder).  For a field element \<open>j\<close> and every position \<open>i\<close> below \<open>n\<close>:
  the selector the loop derives is the output of \<open>IsEqual\<close> on \<open>j\<close> and the constant
  \<open>i\<close>, and it is \<open>1\<close> if \<open>j = i\<close> and \<open>0\<close> otherwise; the comparator's
  constraints force the same value on any assignment, whatever the hint.
\<close>

theorem selector_builder_contract:
  assumes p: "prime_field p" and n: "int n \<le> p" and j: "felt p j"
  shows "\<exists>eqs. sel_loop p j [0..<n] = Inr eqs \<and> length eqs = n \<and>
           (\<forall>i\<in>{0..<n}. IsEqual p j (int i) = Inr (eqs ! i) \<and> snd (eqs ! i) = sel_spec j i) \<and>
           (\<forall>i\<in>{0..<n}. \<forall>iv out. IsEqual_constraints p j (int i) iv out \<longrightarrow> out = sel_spec j i)"
proof -
  from j p have jm: "j mod p = j" by (simp add: felt_def)
  from n have b: "\<forall>i\<in>set [0..<n]. int i < p" by auto
  from sel_loop_out [OF p b, of j] obtain eqs where
    e: "sel_loop p j [0..<n] = Inr eqs"
       "map snd eqs = map (\<lambda>i. if j mod p = int i then 1 else 0) [0..<n]"
    by blast
  from sel_loop_Inr_constraints [OF e(1)] have le: "length eqs = n" by simp
  have a: "\<forall>i\<in>{0..<n}. IsEqual p j (int i) = Inr (eqs ! i) \<and> snd (eqs ! i) = sel_spec j i"
  proof
    fix i assume "i \<in> {0..<n}"
    then have i: "i < n" by simp
    from sel_loop_nth [OF e(1), of i] i have "IsEqual p j (int i) = Inr (eqs ! i)" by simp
    moreover from e(2) i le have "map snd eqs ! i = (if j mod p = int i then 1 else 0)" by simp
    with i le jm have "snd (eqs ! i) = sel_spec j i" by (simp add: sel_spec_def)
    ultimately show "IsEqual p j (int i) = Inr (eqs ! i) \<and> snd (eqs ! i) = sel_spec j i" ..
  qed
  have c: "\<forall>i\<in>{0..<n}. \<forall>iv out. IsEqual_constraints p j (int i) iv out \<longrightarrow> out = sel_spec j i"
  proof (intro ballI allI impI)
    fix i iv out assume "i \<in> {0..<n}" and q: "IsEqual_constraints p j (int i) iv out"
    with n have "felt p (int i)" by (simp add: felt_def)
    from IsEqual_constraints_out [OF p this q] jm show "out = sel_spec j i"
      by (simp add: sel_spec_def)
  qed
  from e(1) le a c show ?thesis by blast
qed

theorem selector_builder_contract_witness:
  "prime_field 101 \<and> int 10 \<le> 101 \<and> felt 101 3 \<and>
   (\<exists>eqs. sel_loop 101 3 [0..<10] = Inr eqs \<and> length eqs = 10 \<and>
      map snd eqs = [0, 0, 0, 1, 0, 0, 0, 0, 0, 0])"
proof -
  have f: "felt 101 3" by (simp add: felt_def)
  have s: "sel_loop 101 3 [0..<10] =
             Inr [(67, 0), (50, 0), (100, 0), (0, 1), (1, 0), (51, 0), (34, 0), (76, 0),
                  (81, 0), (17, 0)]"
    by code_simp
  from selector_builder_contract [where p = 101 and n = 10 and j = 3] prime_field_101 f s
  show ?thesis by simp
qed

text \<open>
  C7 (public output).  For every witness that synthesis returns, and for every
  assignment that satisfies the constraints, the public output \<open>ok\<close> of the main
  component is \<open>1\<close>, as is the output of the inner component it copies.
\<close>

theorem public_output_is_one:
  assumes "synthesize_witness p H secret index list = Inr m \<or> component_main_constraints p H m"
  shows "public_output m = 1 \<and> c_ok (main_c m) = 1"
proof -
  from assms have "component_main_constraints p H m"
    using synthesize_witness_Inr_constraints by blast
  then show ?thesis
    by (simp add: component_main_constraints_def Main_constraints_def
        HashListCheckInternal_constraints_def public_output_def)
qed

theorem public_output_is_one_witness:
  "synthesize_witness 101 example_hash 42 3 example_list = Inr example_witness \<and>
   public_output example_witness = 1"
  using public_output_is_one [where p = 101 and H = example_hash and secret = 42 and index = 3
      and list = example_list and m = example_witness] example_synthesis
  by simp

text \<open>
  C8 (shape enforcement).  A public list whose length is not 10 (9 or 11 elements, for
  example) makes witness synthesis fail with \<open>ShapeMismatch\<close>, whatever the field, the
  hash, the secret and the index are, so before any constraint is looked at; a witness
  that synthesis returns holds the list as it was supplied, of length 10.  In
  \<open>get_input_with_others.js\<close>: every input the script prints comes from an others file
  that parsed to an array of exactly 9 elements and lists these 9 in order followed by
  one more hash, 10 in all; and once a secret is given and the file is read, not blank
  and parsed, a value that is not an array of exactly 9 elements ends the script with
  the error "others file must be a JSON array of exactly 9 hashes", before any hash is
  computed.  The script counts the elements; it does not look at what they are.
\<close>

theorem shape_enforcement:
  "(length list \<noteq> 10 \<longrightarrow> synthesize_witness p H secret index list = Inl ShapeMismatch) \<and>
   (\<forall>m. synthesize_witness p H secret index list = Inr m \<longrightarrow>
      length list = 10 \<and> main_hashes m = list \<and> c_hashes (main_c m) = list) \<and>
   (\<forall>inp. get_input_with_others env dirname argv = Inr inp \<longrightarrow>
      length (in_hashes inp) = 10 \<and>
      (\<exists>raw xs h. env_readFileSync env (others_path dirname argv) = Inr raw \<and>
         env_JSON_parse env raw = Inr (JArray xs) \<and> length xs = 9 \<and>
         in_hashes inp = map (env_String env) xs @ [h])) \<and>
   (truthy (argv_at argv 2) \<and> env_readFileSync env (others_path dirname argv) = Inr raw \<and>
    raw \<noteq> [] \<and> js_trim raw \<noteq> [] \<and> env_JSON_parse env raw = Inr others \<and>
    \<not> (\<exists>xs. others = JArray xs \<and> length xs = 9) \<longrightarrow>
      get_input_with_others env dirname argv = Inl (Error shape_message))"
proof (intro conjI allI impI)
  assume "length list \<noteq> 10"
  then show "synthesize_witness p H secret index list = Inl ShapeMismatch"
    by (simp add: synthesize_witness_def)
next
  fix m assume s: "synthesize_witness p H secret index list = Inr m"
  from synthesize_witness_Inr_inputs [OF s]
  show "length list = 10" and "main_hashes m = list" by simp_all
  from synthesize_witness_Inr_constraints [OF s] \<open>main_hashes m = list\<close>
  show "c_hashes (main_c m) = list"
    by (simp add: component_main_constraints_def Main_constraints_def)
next
  fix inp assume r: "get_input_with_others env dirname argv = Inr inp"
  from get_input_with_others_Inr [OF r]
  show e: "\<exists>raw xs h. env_readFileSync env (others_path dirname argv) = Inr raw \<and>
         env_JSON_parse env raw = Inr (JArray xs) \<and> length xs = 9 \<and>
         in_hashes inp = map (env_String env) xs @ [h]" .
  then show "length (in_hashes inp) = 10" by auto
next
  assume "truthy (argv_at argv 2) \<and> env_readFileSync env (others_path dirname argv) = Inr raw \<and>
    raw \<noteq> [] \<and> js_trim raw \<noteq> [] \<and> env_JSON_parse env raw = Inr others \<and>
    \<not> (\<exists>xs. others = JArray xs \<and> length xs = 9)"
  then show "get_input_with_others env dirname argv = Inl (Error shape_message)"
    using get_input_with_others_shape_error by blast
qed

theorem shape_enforcement_witness:
  "synthesize_witness 101 example_hash 42 3 [0, 0, 0, 52, 0, 0, 0, 0, 0] = Inl ShapeMismatch \<and>
   synthesize_witness 101 example_hash 42 3 (example_list @ [0]) = Inl ShapeMismatch \<and>
   main_hashes example_witness = example_list \<and>
   get_input_with_others example_env (js ''/zk2'') example_argv = Inl (Error shape_message)"
proof -
  have a: "truthy (argv_at example_argv 2)"
    by (simp add: truthy_def argv_at_def example_argv_def js_def)
  have f: "env_readFileSync example_env (others_path (js ''/zk2'') example_argv) =
      Inr (js ''[7, 8]'')"
    by (simp add: example_env_def)
  have b: "js ''[7, 8]'' \<noteq> []" "js_trim (js ''[7, 8]'') \<noteq> []"
    by (simp_all add: js_trim_def is_whitespace_def js_def)
  have q: "env_JSON_parse example_env (js ''[7, 8]'') = Inr (JArray [JNumber 7 0, JNumber 8 0])"
    by (simp add: example_env_def)
  have n: "\<not> (\<exists>xs. JArray [JNumber 7 0, JNumber 8 0] = JArray xs \<and> length xs = 9)"
    by simp
  have l9: "length [0, 0, 0, 52, 0, 0, 0, 0, (0::int)] \<noteq> 10"
    and l11: "length (example_list @ [0]) \<noteq> 10"
    by (simp_all add: example_list_def)
  from shape_enforcement [of "[0, 0, 0, 52, 0, 0, 0, 0, 0]" 101 example_hash 42 3] l9
  have s9: "synthesize_witness 101 example_hash 42 3 [0, 0, 0, 52, 0, 0, 0, 0, 0] =
      Inl ShapeMismatch"
    by blast
  from shape_enforcement [of "example_list @ [0]" 101 example_hash 42 3] l11
  have s11: "synthesize_witness 101 example_hash 42 3 (example_list @ [0]) = Inl ShapeMismatch"
    by blast
  from shape_enforcement [of example_list 101 example_hash 42 3] example_synthesis
  have m: "main_hashes example_witness = example_list"
    by blast
  from shape_enforcement [of _ _ _ _ _ example_env "js ''/zk2''" example_argv
      "js ''[7, 8]''" "JArray [JNumber 7 0, JNumber 8 0]"] a f b q n
  have g: "get_input_with_others example_env (js ''/zk2'') example_argv =
      Inl (Error shape_message)"
    by blast
  from s9 s11 m g show ?thesis by blast
qed



text \<open>
  C10 (range check of the driver).  In \<open>get_input.js\<close>, whenever the index argument
  parses to a number \<open>j\<close> with \<open>j < 0\<close> or \<open>j > 9\<close>, the script ends with the error
  "j must be 0-9" (with an en dash), whatever the library calls would do: no hash is
  computed and no input is built.
\<close>

theorem get_input_range_check:
  assumes "parseInt10 (or_default (argv_at argv 3) (js ''0'')) = Some j" and "j < 0 \<or> 9 < j"
  shows "get_input env argv = Inl (Error j_range_message)"
  using assms by (auto simp: get_input_def Let_def js_lt_def js_gt_def)

theorem get_input_range_check_witness:
  "parseInt10 (or_default (argv_at example_argv 3) (js ''0'')) = Some 10 \<and>
   get_input example_env example_argv = Inl (Error j_range_message)"
proof -
  have a: "parseInt10 (or_default (argv_at example_argv 3) (js ''0'')) = Some 10"
    by (simp add: parseInt10_def or_default_def argv_at_def example_argv_def js_def
        is_whitespace_def is_digit_def digit_val_def)
  from get_input_range_check [OF a, of example_env] a show ?thesis by simp
qed

end
